theory Spec2Isabelle
  imports Main "HOL-Library.Sublist"
begin

section \<open>Data model of \<open>main.py\<close>\<close>

text \<open>
  The file \<open>main.py\<close> holds one class, \<open>CryptoMonitorApp\<close>, which wires collaborators
  together (models, views, controllers, the database manager) and owns start-up and
  shutdown. The collaborators themselves live in other modules; what they do when one of
  their methods is called is a parameter of this development (the record \<open>env\<close> below).
\<close>

subsection \<open>Exceptions and results\<close>

text \<open>
  The attributes of \<open>self\<close> that \<open>__init__\<close> assigns to collaborator objects, in the order
  of assignment.
\<close>

datatype attr =
    trade_model | order_book_model | db_manager | console_view | gui_view
  | visualizer | ws_controller | cmd_controller

text \<open>
  Python exceptions. \<open>AttributeError a\<close> is what the interpreter raises when \<open>self.a\<close> is
  read and was never assigned; \<open>Exception m\<close> is any other exception below the class
  \<open>Exception\<close>, with \<open>m\<close> its text \<open>str(e)\<close>. \<open>KeyboardInterrupt\<close> and \<open>SystemExit\<close> derive
  from \<open>BaseException\<close> only, so a clause \<open>except Exception\<close> lets them through.
\<close>

datatype exc = AttributeError attr | Exception string | KeyboardInterrupt | SystemExit int

fun is_Exception :: "exc \<Rightarrow> bool" where
  "is_Exception (AttributeError a) = True"
| "is_Exception (Exception m) = True"
| "is_Exception KeyboardInterrupt = False"
| "is_Exception (SystemExit n) = False"

fun is_KeyboardInterrupt :: "exc \<Rightarrow> bool" where
  "is_KeyboardInterrupt KeyboardInterrupt = True"
| "is_KeyboardInterrupt e = False"

fun attr_name :: "attr \<Rightarrow> string" where
  "attr_name trade_model = ''trade_model''"
| "attr_name order_book_model = ''order_book_model''"
| "attr_name db_manager = ''db_manager''"
| "attr_name console_view = ''console_view''"
| "attr_name gui_view = ''gui_view''"
| "attr_name visualizer = ''visualizer''"
| "attr_name ws_controller = ''ws_controller''"
| "attr_name cmd_controller = ''cmd_controller''"

text \<open>The text \<open>str(e)\<close> that an f-string \<open>{e}\<close> inserts.\<close>

fun str_exc :: "exc \<Rightarrow> string" where
  "str_exc (AttributeError a) =
     [CHR 0x27] @ ''CryptoMonitorApp'' @ [CHR 0x27] @ '' object has no attribute ''
     @ [CHR 0x27] @ attr_name a @ [CHR 0x27]"
| "str_exc (Exception m) = m"
| "str_exc KeyboardInterrupt = []"
| "str_exc (SystemExit n) = []"

text \<open>
  How a call ends: it returns a value, it raises, or the process is killed by the
  operating system while the call runs (no Python code runs after that, not even a
  \<open>finally\<close> block).
\<close>

datatype 'a result = Return 'a | Raise exc | Killed

datatype val = VNone | VBool bool

fun truthy :: "val \<Rightarrow> bool" where
  "truthy VNone = False"
| "truthy (VBool b) = b"

subsection \<open>Calls into collaborators and the trace of a run\<close>

datatype call =
    New_TradeModel "string list"
  | New_OrderBookModel "string list"
  | New_DatabaseManager string int
  | New_ConsoleView string
  | New_GuiView
  | New_VisualizationView "string list"
  | New_WebSocketController
  | New_CommandController
  | Console_print_info string bool
  | Console_print_success string
  | Console_print_error string
  | Cmd_start_listener
  | Cmd_stop
  | Ws_connect
  | Ws_close
  | Viz_start
  | Viz_stop
  | Db_flush
  | Db_close

datatype signum = SIGINT | SIGTERM

text \<open>
  What the outside world observes of a run, in order: each call into a collaborator with
  how it ended, each read of \<open>self.visualizer.running\<close> with the value read, each line
  written by the builtin \<open>print\<close>, the assignment to \<open>cmd_controller.get_database_manager\<close>,
  and each \<open>time.sleep(1)\<close> of the keep-alive loop.
\<close>

datatype event =
    Call call "val result"
  | Running bool
  | Print string
  | Override_get_database_manager
  | Sleep

subsection \<open>The application object and the process state\<close>

record args =
  arg_db_name :: string
  arg_symbols :: "string list"
  arg_viz :: bool
  arg_batch_size :: int

record app =
  db_name :: string
  symbols :: "string list"
  enable_viz :: bool
  batch_size :: int
  assigned :: "attr set"

datatype handler = SIG_DFL | signal_handler_closure

datatype hook = cleanup_hook

record 'w state =
  self :: app
  world :: 'w
  sig_handlers :: "signum \<Rightarrow> handler"
  atexit_hooks :: "hook list"

text \<open>What \<open>time.sleep(1)\<close> does in the keep-alive loop.\<close>

datatype wake = Slept | Signal signum | Interrupted exc

text \<open>
  The collaborators, as parameters. \<open>'w\<close> is whatever state they have; \<open>invoke\<close> gives the
  end of a call and the state after it, \<open>viz_running\<close> the flag \<open>visualizer.running\<close>,
  \<open>sleep\<close> what happens during one \<open>time.sleep(1)\<close>, \<open>APP_VERSION\<close> is the constant
  imported from \<open>config_crypto_monitor\<close>, and \<open>str_upper\<close> is the method \<open>str.upper\<close> of
  Python's strings, which follows the Unicode case mapping.
\<close>

record 'w env =
  invoke :: "call \<Rightarrow> 'w \<Rightarrow> val result \<times> 'w"
  viz_running :: "'w \<Rightarrow> bool"
  sleep :: "'w \<Rightarrow> wake \<times> 'w"
  APP_VERSION :: string
  str_upper :: "string \<Rightarrow> string"

section \<open>Control flow\<close>

text \<open>
  A piece of program takes the process state and gives how it ended, the events it
  produced and the state it left.
\<close>

type_synonym ('w, 'a) outcome = "'a result \<times> event list \<times> 'w state"

type_synonym ('w, 'a) prog = "'w state \<Rightarrow> ('w, 'a) outcome"

definition res :: "('w, 'a) outcome \<Rightarrow> 'a result" where
  "res out = fst out"

definition evs :: "('w, 'a) outcome \<Rightarrow> event list" where
  "evs out = fst (snd out)"

definition post :: "('w, 'a) outcome \<Rightarrow> 'w state" where
  "post out = snd (snd out)"

definition after :: "event list \<Rightarrow> ('w, 'a) outcome \<Rightarrow> ('w, 'a) outcome" where
  "after t out = (case out of (r, t', s) \<Rightarrow> (r, t @ t', s))"

text \<open>Statement sequencing: the rest runs only when the first part returned.\<close>

definition and_then :: "('w, 'a) outcome \<Rightarrow> ('a \<Rightarrow> ('w, 'b) prog) \<Rightarrow> ('w, 'b) outcome" where
  "and_then out k =
     (case out of
        (Return v, t, s) \<Rightarrow> after t (k v s)
      | (Raise e, t, s) \<Rightarrow> (Raise e, t, s)
      | (Killed, t, s) \<Rightarrow> (Killed, t, s))"

definition bind :: "('w, 'a) prog \<Rightarrow> ('a \<Rightarrow> ('w, 'b) prog) \<Rightarrow> ('w, 'b) prog" where
  "bind m k s = and_then (m s) k"

definition seq :: "('w, 'a) prog \<Rightarrow> ('w, 'b) prog \<Rightarrow> ('w, 'b) prog" where
  "seq m k = bind m (\<lambda>_. k)"

definition skip :: "('w, unit) prog" where
  "skip s = (Return (), [], s)"

definition if_then :: "('w state \<Rightarrow> bool) \<Rightarrow> ('w, unit) prog \<Rightarrow> ('w, unit) prog" where
  "if_then c m s = (if c s then m s else skip s)"

text \<open>
  \<open>try: ... except C as e: ...\<close> where \<open>catches\<close> says which exceptions the clause matches.
\<close>

definition handle ::
  "('w, unit) outcome \<Rightarrow> (exc \<Rightarrow> bool) \<Rightarrow> (exc \<Rightarrow> ('w, unit) prog) \<Rightarrow> ('w, unit) outcome" where
  "handle out catches h =
     (case out of
        (Raise e, t, s) \<Rightarrow> if catches e then after t (h e s) else (Raise e, t, s)
      | (Return v, t, s) \<Rightarrow> (Return v, t, s)
      | (Killed, t, s) \<Rightarrow> (Killed, t, s))"

definition try_except ::
  "('w, unit) prog \<Rightarrow> (exc \<Rightarrow> bool) \<Rightarrow> (exc \<Rightarrow> ('w, unit) prog) \<Rightarrow> ('w, unit) prog" where
  "try_except body catches h s = handle (body s) catches h"

text \<open>
  \<open>try: ... finally: ...\<close>: the final block runs after a return and after a raise; when it
  returns, the body's own end stands, and when it raises, its exception replaces it.
\<close>

definition try_finally :: "('w, unit) outcome \<Rightarrow> ('w, unit) prog \<Rightarrow> ('w, unit) outcome" where
  "try_finally out fin =
     (case out of
        (Killed, t, s) \<Rightarrow> (Killed, t, s)
      | (r, t, s) \<Rightarrow>
          (case fin s of
             (Return _, t', s') \<Rightarrow> (r, t @ t', s')
           | (r', t', s') \<Rightarrow> (r', t @ t', s')))"

subsection \<open>Primitive statements\<close>

definition hasattr :: "attr \<Rightarrow> 'w state \<Rightarrow> bool" where
  "hasattr a s = (a \<in> assigned (self s))"

text \<open>\<open>self.a.method(...)\<close>: the attribute is looked up first, then the method is called.\<close>

definition call_method :: "'w env \<Rightarrow> attr \<Rightarrow> call \<Rightarrow> ('w, val) prog" where
  "call_method E a c s =
     (if hasattr a s
      then (case invoke E c (world s) of (r, w) \<Rightarrow> (r, [Call c r], s\<lparr>world := w\<rparr>))
      else (Raise (AttributeError a), [], s))"

definition do_method :: "'w env \<Rightarrow> attr \<Rightarrow> call \<Rightarrow> ('w, unit) prog" where
  "do_method E a c = bind (call_method E a c) (\<lambda>_. skip)"

definition print :: "string \<Rightarrow> ('w, unit) prog" where
  "print m s = (Return (), [Print m], s)"

definition sys_exit :: "int \<Rightarrow> ('w, unit) prog" where
  "sys_exit n s = (Raise (SystemExit n), [], s)"

text \<open>
  The condition \<open>hasattr(self, 'visualizer') and self.visualizer.running\<close>: the flag is
  read only when the attribute is there.
\<close>

definition visualizer_running :: "'w env \<Rightarrow> ('w, bool) prog" where
  "visualizer_running E s =
     (if hasattr visualizer s
      then (Return (viz_running E (world s)), [Running (viz_running E (world s))], s)
      else (Return False, [], s))"

section \<open>\<open>CryptoMonitorApp.cleanup\<close>\<close>

definition stop_command_controller :: "'w env \<Rightarrow> ('w, unit) prog" where
  "stop_command_controller E =
     if_then (hasattr cmd_controller)
       (try_except (do_method E cmd_controller Cmd_stop) is_Exception
          (\<lambda>e. print (''Error stopping command controller: '' @ str_exc e)))"

definition close_websocket :: "'w env \<Rightarrow> ('w, unit) prog" where
  "close_websocket E =
     if_then (hasattr ws_controller)
       (try_except (do_method E ws_controller Ws_close) is_Exception
          (\<lambda>e. print (''Error closing WebSocket: '' @ str_exc e)))"

definition stop_visualization :: "'w env \<Rightarrow> ('w, unit) prog" where
  "stop_visualization E =
     bind (visualizer_running E) (\<lambda>running.
       if running
       then try_except (do_method E visualizer Viz_stop) is_Exception
              (\<lambda>e. print (''Error stopping visualization: '' @ str_exc e))
       else skip)"

definition flush_and_close_database :: "'w env \<Rightarrow> ('w, unit) prog" where
  "flush_and_close_database E =
     if_then (hasattr db_manager)
       (try_except
          (seq (do_method E console_view
                  (Console_print_info ''Flushing remaining database records...'' False))
          (seq (do_method E db_manager Db_flush)
          (seq (do_method E db_manager Db_close)
               (do_method E console_view
                  (Console_print_success ''Database closed successfully.'')))))
          is_Exception
          (\<lambda>e. print (''Error closing database: '' @ str_exc e)))"

definition cleanup :: "'w env \<Rightarrow> ('w, unit) prog" where
  "cleanup E =
     seq (do_method E console_view
            (Console_print_info ''Cleaning up application resources...'' False))
    (seq (stop_command_controller E)
    (seq (close_websocket E)
    (seq (stop_visualization E)
    (seq (flush_and_close_database E)
         (do_method E console_view
            (Console_print_info ''Application shutdown complete.'' False))))))"

section \<open>\<open>CryptoMonitorApp._setup_signal_handlers\<close>\<close>

text \<open>
  The closure \<open>signal_handler(sig, frame)\<close>: it prints, runs \<open>self.cleanup()\<close> and calls
  \<open>sys.exit(0)\<close>, which raises \<open>SystemExit(0)\<close> in the frame the signal interrupted.
\<close>

definition signal_handler :: "'w env \<Rightarrow> ('w, unit) prog" where
  "signal_handler E =
     seq (print (CHR 0x0A # ''Received interrupt signal. Shutting down...''))
    (seq (cleanup E)
         (sys_exit 0))"

definition signal_signal :: "signum \<Rightarrow> handler \<Rightarrow> ('w, unit) prog" where
  "signal_signal sig h s = (Return (), [], s\<lparr>sig_handlers := (sig_handlers s)(sig := h)\<rparr>)"

definition setup_signal_handlers :: "('w, unit) prog" where
  "setup_signal_handlers =
     seq (signal_signal SIGINT signal_handler_closure)
         (signal_signal SIGTERM signal_handler_closure)"

text \<open>
  Delivery of a signal to the main thread: the handler in the table runs there. Without
  a handler of the program, Python's default for \<open>SIGINT\<close> raises \<open>KeyboardInterrupt\<close>
  and the system's default for \<open>SIGTERM\<close> ends the process at once.
\<close>

definition deliver :: "'w env \<Rightarrow> signum \<Rightarrow> ('w, unit) prog" where
  "deliver E sig s =
     (case sig_handlers s sig of
        signal_handler_closure \<Rightarrow> signal_handler E s
      | SIG_DFL \<Rightarrow>
          (case sig of
             SIGINT \<Rightarrow> (Raise KeyboardInterrupt, [], s)
           | SIGTERM \<Rightarrow> (Killed, [], s)))"

section \<open>\<open>CryptoMonitorApp.__init__\<close>\<close>

fun join :: "string \<Rightarrow> string list \<Rightarrow> string" where
  "join sep [] = []"
| "join sep [x] = x"
| "join sep (x # y # ys) = x @ sep @ join sep (y # ys)"

text \<open>
  \<open>self.args = args or parse_arguments()\<close>: \<open>parse_arguments\<close> is defined in another
  module, so the namespace that this expression yields is the parameter \<open>a\<close> of \<open>init\<close>.
  \<open>self.symbols = [s.upper() for s in self.args.symbols]\<close> applies \<open>str.upper\<close> to each
  configured symbol.
\<close>

definition extract_configuration :: "'w env \<Rightarrow> args \<Rightarrow> ('w, unit) prog" where
  "extract_configuration E a s =
     (Return (), [],
      s\<lparr>self := (self s)\<lparr>db_name := arg_db_name a,
                          symbols := [str_upper E x. x \<leftarrow> arg_symbols a],
                          enable_viz := arg_viz a,
                          batch_size := arg_batch_size a\<rparr>\<rparr>)"

text \<open>
  \<open>self.a = C(...)\<close>: the attribute is assigned only when the constructor returned.
\<close>

definition construct :: "'w env \<Rightarrow> attr \<Rightarrow> call \<Rightarrow> ('w, unit) prog" where
  "construct E a c s =
     (case invoke E c (world s) of
        (Return v, w) \<Rightarrow>
          (Return (), [Call c (Return v)],
           s\<lparr>world := w, self := (self s)\<lparr>assigned := insert a (assigned (self s))\<rparr>\<rparr>)
      | (Raise e, w) \<Rightarrow> (Raise e, [Call c (Raise e)], s\<lparr>world := w\<rparr>)
      | (Killed, w) \<Rightarrow> (Killed, [Call c Killed], s\<lparr>world := w\<rparr>))"

definition override_get_database_manager :: "('w, unit) prog" where
  "override_get_database_manager s =
     (if hasattr cmd_controller s then (Return (), [Override_get_database_manager], s)
      else (Raise (AttributeError cmd_controller), [], s))"

definition atexit_register :: "hook \<Rightarrow> ('w, unit) prog" where
  "atexit_register h s = (Return (), [], s\<lparr>atexit_hooks := h # atexit_hooks s\<rparr>)"

definition init :: "'w env \<Rightarrow> args \<Rightarrow> ('w, unit) prog" where
  "init E a =
     seq (extract_configuration E a)
    (seq (\<lambda>s. construct E trade_model (New_TradeModel (symbols (self s))) s)
    (seq (\<lambda>s. construct E order_book_model (New_OrderBookModel (symbols (self s))) s)
    (seq (\<lambda>s. construct E db_manager
                 (New_DatabaseManager (db_name (self s)) (batch_size (self s))) s)
    (seq (construct E console_view (New_ConsoleView (APP_VERSION E)))
    (seq (construct E gui_view New_GuiView)
    (seq (\<lambda>s. construct E visualizer (New_VisualizationView (symbols (self s))) s)
    (seq (construct E ws_controller New_WebSocketController)
    (seq (construct E cmd_controller New_CommandController)
    (seq override_get_database_manager
    (seq setup_signal_handlers
         (atexit_register cleanup_hook)))))))))))"

section \<open>\<open>CryptoMonitorApp.start\<close>\<close>

text \<open>
  The statements of \<open>start\<close> before the keep-alive loop. The flag of
  \<open>Console_print_info\<close> says whether \<open>persistent=True\<close> was passed.
\<close>

definition start_visualization :: "'w env \<Rightarrow> ('w, unit) prog" where
  "start_visualization E =
     if_then (\<lambda>s. enable_viz (self s))
       (seq (do_method E console_view
               (Console_print_info ''Starting 3D visualization...'' False))
            (bind (call_method E visualizer Viz_start) (\<lambda>success.
               if truthy success
               then do_method E console_view (Console_print_success
                      ''Visualization started. Open http://127.0.0.1:8050 in your browser.'')
               else do_method E console_view (Console_print_error
                      ''Failed to start visualization. Make sure you have required packages installed.''))))"

definition startup :: "'w env \<Rightarrow> ('w, unit) prog" where
  "startup E =
     seq (\<lambda>s. do_method E console_view (Console_print_info
                 (''Starting Cryptocurrency Market Monitor with database: '' @ db_name (self s))
                 True) s)
    (seq (\<lambda>s. do_method E console_view (Console_print_info
                 (''Tracking symbols: '' @ join '', '' (symbols (self s))) True) s)
    (seq (do_method E cmd_controller Cmd_start_listener)
    (seq (do_method E ws_controller Ws_connect)
    (seq (start_visualization E)
         (do_method E console_view (Console_print_info
            (''Type '' @ [CHR 0x27] @ ''help'' @ [CHR 0x27]
             @ '' for available commands, '' @ [CHR 0x27] @ ''status'' @ [CHR 0x27]
             @ '' for connection info, or '' @ [CHR 0x27] @ ''reconnect'' @ [CHR 0x27]
             @ '' to reset connection.'') True))))))"

text \<open>
  \<open>while True: time.sleep(1)\<close>. The loop has no exit of its own: it ends when a sleep
  raises, or when a signal arrives and its handler does not return. A run in which every
  sleep returns goes on for ever, which is the value \<open>None\<close>.
\<close>

partial_function (option) keep_alive :: "'w env \<Rightarrow> 'w state \<Rightarrow> ('w, unit) outcome option" where
  "keep_alive E s =
     (case sleep E (world s) of
        (Slept, w) \<Rightarrow>
          Option.bind (keep_alive E (s\<lparr>world := w\<rparr>)) (\<lambda>out. Some (after [Sleep] out))
      | (Interrupted e, w) \<Rightarrow> Some (Raise e, [Sleep], s\<lparr>world := w\<rparr>)
      | (Signal sig, w) \<Rightarrow>
          (case deliver E sig (s\<lparr>world := w\<rparr>) of
             (Return _, t, s') \<Rightarrow>
               Option.bind (keep_alive E s') (\<lambda>out. Some (after (Sleep # t) out))
           | (Raise e, t, s') \<Rightarrow> Some (Raise e, Sleep # t, s')
           | (Killed, t, s') \<Rightarrow> Some (Killed, Sleep # t, s')))"

definition start :: "'w env \<Rightarrow> 'w state \<Rightarrow> ('w, unit) outcome option" where
  "start E s =
     (case startup E s of
        (Return _, t, s') \<Rightarrow>
          map_option
            (\<lambda>loop. after t
               (try_finally
                  (handle loop is_KeyboardInterrupt
                     (\<lambda>_. do_method E console_view (Console_print_info ''Shutting down...'' False)))
                  (cleanup E)))
            (keep_alive E s')
      | (Raise e, t, s') \<Rightarrow> Some (Raise e, t, s')
      | (Killed, t, s') \<Rightarrow> Some (Killed, t, s'))"

section \<open>The process: \<open>app = CryptoMonitorApp(); app.start()\<close>\<close>

text \<open>
  At interpreter exit the functions registered with \<open>atexit\<close> run, last registered
  first; an exception of one of them is written to standard error by the interpreter
  and does not stop the others. A killed process runs none of them.
\<close>

definition run_hook :: "'w env \<Rightarrow> hook \<Rightarrow> ('w, unit) prog" where
  "run_hook E h = (case h of cleanup_hook \<Rightarrow> cleanup E)"

fun run_exit_hooks :: "'w env \<Rightarrow> hook list \<Rightarrow> ('w, unit) prog" where
  "run_exit_hooks E [] s = skip s"
| "run_exit_hooks E (h # hs) s =
     seq (try_except (run_hook E h) (\<lambda>e. True) (\<lambda>e. skip)) (run_exit_hooks E hs) s"

definition interpreter_exit :: "'w env \<Rightarrow> ('w, unit) outcome \<Rightarrow> ('w, unit) outcome" where
  "interpreter_exit E out =
     (case out of
        (Killed, t, s) \<Rightarrow> (Killed, t, s)
      | (r, t, s) \<Rightarrow>
          (case run_exit_hooks E (atexit_hooks s) s of
             (Killed, t', s') \<Rightarrow> (Killed, t @ t', s')
           | (_, t', s') \<Rightarrow> (r, t @ t', s')))"

text \<open>
  A fresh process: the object has no attribute yet, no handler and no exit function is
  installed. The configuration fields of the record hold placeholders until
  \<open>__init__\<close> assigns them.
\<close>

definition fresh :: "'w \<Rightarrow> 'w state" where
  "fresh w =
     \<lparr>self = \<lparr>db_name = [], symbols = [], enable_viz = False, batch_size = 0, assigned = {}\<rparr>,
      world = w, sig_handlers = (\<lambda>_. SIG_DFL), atexit_hooks = []\<rparr>"

definition main :: "'w env \<Rightarrow> args \<Rightarrow> 'w \<Rightarrow> ('w, unit) outcome option" where
  "main E a w =
     (case init E a (fresh w) of
        (Return _, t, s) \<Rightarrow> map_option (\<lambda>out. interpreter_exit E (after t out)) (start E s)
      | (Raise e, t, s) \<Rightarrow> Some (interpreter_exit E (Raise e, t, s))
      | (Killed, t, s) \<Rightarrow> Some (Killed, t, s))"

section \<open>Concrete collaborators for the examples\<close>

text \<open>
  What \<open>str.upper\<close> does on ASCII strings, which is all that the examples need: the letters
  \<open>a\<close> to \<open>z\<close> go to \<open>A\<close> to \<open>Z\<close> and every other ASCII character stays.
\<close>

definition ascii_upper_char :: "char \<Rightarrow> char" where
  "ascii_upper_char c =
     (let n = (of_char c :: nat) in if 97 \<le> n \<and> n \<le> 122 then char_of (n - 32) else c)"

definition ascii_upper :: "string \<Rightarrow> string" where
  "ascii_upper s = map ascii_upper_char s"

text \<open>
  Collaborators whose state is the number of sleeps so far: a call ends as \<open>f\<close> says, the
  visualizer's flag is \<open>b\<close>, the first \<open>n\<close> sleeps return and the next one ends as \<open>k\<close> says.
  The symbols of the examples are ASCII strings.
\<close>

definition scripted :: "(call \<Rightarrow> val result) \<Rightarrow> bool \<Rightarrow> nat \<Rightarrow> wake \<Rightarrow> nat env" where
  "scripted f b n k =
     \<lparr>invoke = (\<lambda>c w. (f c, w)), viz_running = (\<lambda>w. b),
      sleep = (\<lambda>w. if w < n then (Slept, Suc w) else (k, Suc w)), APP_VERSION = ''1.0'',
      str_upper = ascii_upper\<rparr>"

definition all_fine :: "call \<Rightarrow> val result" where
  "all_fine c = (if c = Viz_start then Return (VBool True) else Return VNone)"

definition failing :: "call \<Rightarrow> exc \<Rightarrow> call \<Rightarrow> val result" where
  "failing bad e c = (if c = bad then Raise e else all_fine c)"

definition example_args :: args where
  "example_args =
     \<lparr>arg_db_name = ''crypto.db'', arg_symbols = [''btcusdt'', ''ETHusdt''],
      arg_viz = True, arg_batch_size = 500\<rparr>"

text \<open>The application as \<open>__init__\<close> leaves it, and one built only as far as \<open>db_manager\<close>.\<close>

definition built :: "nat state" where
  "built =
     \<lparr>self = \<lparr>db_name = ''crypto.db'', symbols = [''BTCUSDT'', ''ETHUSDT''], enable_viz = True,
              batch_size = 500,
              assigned = {trade_model, order_book_model, db_manager, console_view, gui_view,
                          visualizer, ws_controller, cmd_controller}\<rparr>,
      world = 0,
      sig_handlers = (\<lambda>_. signal_handler_closure),
      atexit_hooks = [cleanup_hook]\<rparr>"

section \<open>Observations on traces\<close>

text \<open>
  Functions that read a trace, and the notions used to reason about the pieces of a
  program one at a time.
\<close>

fun called :: "event \<Rightarrow> call list" where
  "called (Call c r) = [c]"
| "called ev = []"

fun is_teardown :: "call \<Rightarrow> bool" where
  "is_teardown Cmd_stop = True"
| "is_teardown Ws_close = True"
| "is_teardown Viz_stop = True"
| "is_teardown Db_flush = True"
| "is_teardown Db_close = True"
| "is_teardown c = False"

definition teardown_calls :: "event list \<Rightarrow> call list" where
  "teardown_calls t = filter is_teardown (concat (map called t))"

definition emits :: "('w, 'a) prog \<Rightarrow> call list \<Rightarrow> bool" where
  "emits m L = (\<forall>s. subseq (teardown_calls (evs (m s))) L)"

definition keeps_self :: "('w, 'a) prog \<Rightarrow> bool" where
  "keeps_self m = (\<forall>s. self (post (m s)) = self s)"

definition quiet :: "(event \<Rightarrow> bool) \<Rightarrow> ('w, 'a) prog \<Rightarrow> bool" where
  "quiet P m = (\<forall>s. filter P (evs (m s)) = [])"

definition within :: "(event \<Rightarrow> bool) \<Rightarrow> ('w, 'a) prog \<Rightarrow> ('w, 'b) prog \<Rightarrow> bool" where
  "within P m k =
     (\<forall>s. filter P (evs (m s)) = [] \<or>
          (\<exists>s'. self s' = self s \<and> filter P (evs (m s)) = filter P (evs (k s'))))"

fun is_db_event :: "event \<Rightarrow> bool" where
  "is_db_event (Call Db_flush r) = True"
| "is_db_event (Call Db_close r) = True"
| "is_db_event (Call (Console_print_success m) r) = True"
| "is_db_event ev = False"

fun is_viz_event :: "event \<Rightarrow> bool" where
  "is_viz_event (Running b) = True"
| "is_viz_event (Call Viz_stop r) = True"
| "is_viz_event ev = False"

fun is_flush :: "event \<Rightarrow> bool" where
  "is_flush (Call Db_flush r) = True"
| "is_flush ev = False"

fun is_close :: "event \<Rightarrow> bool" where
  "is_close (Call Db_close r) = True"
| "is_close ev = False"

fun is_success_report :: "event \<Rightarrow> bool" where
  "is_success_report (Call (Console_print_success m) r) = True"
| "is_success_report ev = False"

fun returned :: "'a result \<Rightarrow> bool" where
  "returned (Return v) = True"
| "returned r = False"

fun call_returned :: "event \<Rightarrow> bool" where
  "call_returned (Call c r) = returned r"
| "call_returned ev = False"

definition flush_gates_close :: "event list \<Rightarrow> bool" where
  "flush_gates_close t =
     (case t of
        [] \<Rightarrow> True
      | [a] \<Rightarrow> is_flush a
      | [a, b] \<Rightarrow> is_flush a \<and> call_returned a \<and> is_close b
      | [a, b, c] \<Rightarrow>
          is_flush a \<and> call_returned a \<and> is_close b \<and> call_returned b \<and> is_success_report c
      | _ \<Rightarrow> False)"

fun is_stop :: "event \<Rightarrow> bool" where
  "is_stop (Call Viz_stop r) = True"
| "is_stop ev = False"

definition stop_iff_running :: "event list \<Rightarrow> bool" where
  "stop_iff_running t =
     (case t of
        [] \<Rightarrow> True
      | [a] \<Rightarrow> a = Running False
      | [a, b] \<Rightarrow> a = Running True \<and> is_stop b
      | _ \<Rightarrow> False)"

fun is_console :: "call \<Rightarrow> bool" where
  "is_console (Console_print_info m p) = True"
| "is_console (Console_print_success m) = True"
| "is_console (Console_print_error m) = True"
| "is_console c = False"

fun absorbed :: "'a result \<Rightarrow> bool" where
  "absorbed (Return v) = True"
| "absorbed (Raise e) = is_Exception e"
| "absorbed Killed = False"

fun report_prefix :: "call \<Rightarrow> string" where
  "report_prefix Cmd_stop = ''Error stopping command controller: ''"
| "report_prefix Ws_close = ''Error closing WebSocket: ''"
| "report_prefix Viz_stop = ''Error stopping visualization: ''"
| "report_prefix Db_flush = ''Error closing database: ''"
| "report_prefix Db_close = ''Error closing database: ''"
| "report_prefix c = []"

fun needs_report :: "event \<Rightarrow> string option" where
  "needs_report (Call c r) =
     (case r of
        Raise e \<Rightarrow> if is_teardown c then Some (report_prefix c @ str_exc e) else None
      | _ \<Rightarrow> None)"
| "needs_report ev = None"

fun reported :: "event list \<Rightarrow> bool" where
  "reported [] = True"
| "reported (ev # t) =
     ((case needs_report ev of
         None \<Rightarrow> True
       | Some m \<Rightarrow> (case t of [] \<Rightarrow> False | x # _ \<Rightarrow> x = Print m))
      \<and> reported t)"

definition console_returns :: "'w env \<Rightarrow> bool" where
  "console_returns E = (\<forall>c w. is_console c \<longrightarrow> returned (fst (invoke E c w)))"

definition failures_are_Exceptions :: "'w env \<Rightarrow> bool" where
  "failures_are_Exceptions E = (\<forall>c w. is_teardown c \<longrightarrow> absorbed (fst (invoke E c w)))"

definition banner :: call where
  "banner = Console_print_info ''Cleaning up application resources...'' False"

definition farewell :: call where
  "farewell = Console_print_info ''Application shutdown complete.'' False"

fun receiver :: "call \<Rightarrow> attr" where
  "receiver (New_TradeModel x) = trade_model"
| "receiver (New_OrderBookModel x) = order_book_model"
| "receiver (New_DatabaseManager d b) = db_manager"
| "receiver (New_ConsoleView v) = console_view"
| "receiver New_GuiView = gui_view"
| "receiver (New_VisualizationView x) = visualizer"
| "receiver New_WebSocketController = ws_controller"
| "receiver New_CommandController = cmd_controller"
| "receiver (Console_print_info m p) = console_view"
| "receiver (Console_print_success m) = console_view"
| "receiver (Console_print_error m) = console_view"
| "receiver Cmd_start_listener = cmd_controller"
| "receiver Cmd_stop = cmd_controller"
| "receiver Ws_connect = ws_controller"
| "receiver Ws_close = ws_controller"
| "receiver Viz_start = visualizer"
| "receiver Viz_stop = visualizer"
| "receiver Db_flush = db_manager"
| "receiver Db_close = db_manager"

fun repeat :: "nat \<Rightarrow> ('w, unit) prog \<Rightarrow> ('w, unit) prog" where
  "repeat 0 m = skip"
| "repeat (Suc n) m = seq m (repeat n m)"

definition contained :: "('w, 'a) prog \<Rightarrow> bool" where
  "contained m = (\<forall>s e. hasattr console_view s \<longrightarrow> res (m s) = Raise e \<longrightarrow> \<not> is_Exception e)"

definition confined :: "('w, 'a) prog \<Rightarrow> bool" where
  "confined m =
     (\<forall>s. (\<forall>c r. Call c r \<in> set (evs (m s)) \<longrightarrow> hasattr (receiver c) s) \<and>
          (\<forall>b. Running b \<in> set (evs (m s)) \<longrightarrow> hasattr visualizer s))"

definition partly_built :: "nat state" where
  "partly_built =
     \<lparr>self = \<lparr>db_name = ''crypto.db'', symbols = [''BTCUSDT'', ''ETHUSDT''], enable_viz = True,
              batch_size = 500,
              assigned = {trade_model, order_book_model, db_manager, console_view, gui_view}\<rparr>,
      world = 0,
      sig_handlers = (\<lambda>_. SIG_DFL),
      atexit_hooks = []\<rparr>"

definition half_built :: "nat state" where
  "half_built =
     \<lparr>self = \<lparr>db_name = ''crypto.db'', symbols = [''BTCUSDT'', ''ETHUSDT''], enable_viz = True,
              batch_size = 500,
              assigned = {trade_model, order_book_model, db_manager}\<rparr>,
      world = 0,
      sig_handlers = (\<lambda>_. SIG_DFL),
      atexit_hooks = []\<rparr>"

fun symbol_args :: "event \<Rightarrow> string list list" where
  "symbol_args (Call (New_TradeModel x) r) = [x]"
| "symbol_args (Call (New_OrderBookModel x) r) = [x]"
| "symbol_args (Call (New_VisualizationView x) r) = [x]"
| "symbol_args ev = []"

definition inv_run :: "('w state \<Rightarrow> bool) \<Rightarrow> (event \<Rightarrow> bool) \<Rightarrow> ('w, 'a) prog \<Rightarrow> bool" where
  "inv_run I ok m = (\<forall>s. I s \<longrightarrow> I (post (m s)) \<and> list_all ok (evs (m s)))"

definition symbols_are :: "string list \<Rightarrow> 'w state \<Rightarrow> bool" where
  "symbols_are U s = (symbols (self s) = U)"

definition passes :: "string list \<Rightarrow> event \<Rightarrow> bool" where
  "passes U ev = list_all (\<lambda>x. x = U) (symbol_args ev)"

definition shutting_down :: call where
  "shutting_down = Console_print_info ''Shutting down...'' False"

fun is_viz_start :: "event \<Rightarrow> bool" where
  "is_viz_start (Call Viz_start r) = True"
| "is_viz_start ev = False"

definition viz_failed :: call where
  "viz_failed = Console_print_error
     ''Failed to start visualization. Make sure you have required packages installed.''"

definition startup_calls_return :: "'w env \<Rightarrow> bool" where
  "startup_calls_return E =
     (console_returns E \<and> (\<forall>w. returned (fst (invoke E Cmd_start_listener w))) \<and>
      (\<forall>w. returned (fst (invoke E Ws_connect w))))"

definition viz_unavailable :: "call \<Rightarrow> val result" where
  "viz_unavailable c = (if c = Viz_start then Return (VBool False) else Return VNone)"

section \<open>Properties of the control flow\<close>

lemma res_simps [simp]: "res (r, t, s) = r" "evs (r, t, s) = t" "post (r, t, s) = s"
  by (simp_all add: res_def evs_def post_def)

lemma after_simps [simp]:
  "res (after t out) = res out" "evs (after t out) = t @ evs out" "post (after t out) = post out"
  by (cases out; simp add: after_def)+

lemma and_then_Return:
  "res out = Return v \<Longrightarrow> and_then out k = after (evs out) (k v (post out))"
  by (cases out) (simp add: and_then_def)

lemma and_then_stops:
  "\<forall>v. res out \<noteq> Return v \<Longrightarrow>
     evs (and_then out k) = evs out \<and> post (and_then out k) = post out \<and>
     (\<forall>v. res (and_then out k) \<noteq> Return v) \<and>
     (res (and_then out k) = Killed \<longleftrightarrow> res out = Killed) \<and>
     (\<forall>e. res (and_then out k) = Raise e \<longleftrightarrow> res out = Raise e)"
  by (cases out; cases "fst out") (auto simp: and_then_def)

lemma evs_and_then:
  "evs (and_then out k) = evs out \<or> (\<exists>v. evs (and_then out k) = evs out @ evs (k v (post out)))"
  by (cases out; cases "fst out") (auto simp: and_then_def)

lemma evs_handle:
  "evs (handle out c h) = evs out \<or> (\<exists>e. evs (handle out c h) = evs out @ evs (h e (post out)))"
  by (cases out; cases "fst out") (auto simp: handle_def)

lemma teardown_calls_append [simp]:
  "teardown_calls (t @ u) = teardown_calls t @ teardown_calls u"
  by (simp add: teardown_calls_def)

lemma teardown_calls_simps [simp]:
  "teardown_calls [] = []"
  "teardown_calls (Call c r # t) = (if is_teardown c then c # teardown_calls t else teardown_calls t)"
  "teardown_calls (Print m # t) = teardown_calls t"
  "teardown_calls (Running b # t) = teardown_calls t"
  "teardown_calls (Sleep # t) = teardown_calls t"
  "teardown_calls (Override_get_database_manager # t) = teardown_calls t"
  by (simp_all add: teardown_calls_def)

lemma subseq_left: "subseq t L \<Longrightarrow> subseq t (L @ M)"
  by (metis append_Nil2 list_emb_append_mono list_emb_Nil)

lemma emits_bind:
  assumes "emits m L" and "\<And>v. emits (k v) M"
  shows "emits (bind m k) (L @ M)"
  unfolding emits_def
proof
  fix s
  from evs_and_then [of "m s" k]
  show "subseq (teardown_calls (evs (bind m k s))) (L @ M)"
  proof
    assume "evs (and_then (m s) k) = evs (m s)"
    with assms(1) show ?thesis by (simp add: bind_def emits_def subseq_left)
  next
    assume "\<exists>v. evs (and_then (m s) k) = evs (m s) @ evs (k v (post (m s)))"
    then obtain v where "evs (and_then (m s) k) = evs (m s) @ evs (k v (post (m s)))" ..
    with assms show ?thesis by (simp add: bind_def emits_def list_emb_append_mono)
  qed
qed

lemma emits_seq: "emits m L \<Longrightarrow> emits k M \<Longrightarrow> emits (seq m k) (L @ M)"
  by (simp add: seq_def emits_bind)

lemma emits_try_except:
  assumes "emits m L" and "\<And>e. emits (h e) M"
  shows "emits (try_except m c h) (L @ M)"
  unfolding emits_def
proof
  fix s
  from evs_handle [of "m s" c h]
  show "subseq (teardown_calls (evs (try_except m c h s))) (L @ M)"
  proof
    assume "evs (handle (m s) c h) = evs (m s)"
    with assms(1) show ?thesis by (simp add: try_except_def emits_def subseq_left)
  next
    assume "\<exists>e. evs (handle (m s) c h) = evs (m s) @ evs (h e (post (m s)))"
    then obtain e where "evs (handle (m s) c h) = evs (m s) @ evs (h e (post (m s)))" ..
    with assms show ?thesis by (simp add: try_except_def emits_def list_emb_append_mono)
  qed
qed

lemma emits_skip: "emits skip []"
  by (simp add: emits_def skip_def)

lemma emits_print: "emits (print m) []"
  by (simp add: emits_def print_def)

lemma emits_if_then: "emits m L \<Longrightarrow> emits (if_then c m) L"
  by (simp add: emits_def if_then_def skip_def)

lemma emits_do_method_td: "is_teardown c \<Longrightarrow> emits (do_method E a c) [c]"
  by (auto simp: emits_def do_method_def bind_def and_then_def call_method_def skip_def
      split: prod.splits result.splits)

lemma emits_do_method_other: "\<not> is_teardown c \<Longrightarrow> emits (do_method E a c) []"
  by (auto simp: emits_def do_method_def bind_def and_then_def call_method_def skip_def
      split: prod.splits result.splits)

lemma emits_visualizer_running: "emits (visualizer_running E) []"
  by (simp add: emits_def visualizer_running_def)

lemma emits_guarded_call:
  assumes "is_teardown c"
  shows "emits (try_except (do_method E a c) catches (\<lambda>e. print (p e))) [c]"
proof -
  have "emits (try_except (do_method E a c) catches (\<lambda>e. print (p e))) ([c] @ [])"
    by (rule emits_try_except) (simp_all add: assms emits_do_method_td emits_print)
  then show ?thesis by simp
qed

lemma emits_stop_command_controller: "emits (stop_command_controller E) [Cmd_stop]"
  unfolding stop_command_controller_def
  by (rule emits_if_then, rule emits_guarded_call) simp

lemma emits_close_websocket: "emits (close_websocket E) [Ws_close]"
  unfolding close_websocket_def
  by (rule emits_if_then, rule emits_guarded_call) simp

lemma emits_stop_visualization: "emits (stop_visualization E) [Viz_stop]"
proof -
  have "emits (if b then try_except (do_method E visualizer Viz_stop) is_Exception
              (\<lambda>e. print (''Error stopping visualization: '' @ str_exc e)) else skip) [Viz_stop]" for b
    using emits_guarded_call [of Viz_stop E visualizer is_Exception]
    by (cases b) (simp_all add: emits_def skip_def)
  from emits_bind [OF emits_visualizer_running this] show ?thesis
    by (simp add: stop_visualization_def)
qed

lemma emits_flush_and_close_database: "emits (flush_and_close_database E) [Db_flush, Db_close]"
proof -
  have "emits (seq (do_method E console_view
                  (Console_print_info ''Flushing remaining database records...'' False))
          (seq (do_method E db_manager Db_flush)
          (seq (do_method E db_manager Db_close)
               (do_method E console_view
                  (Console_print_success ''Database closed successfully.''))))) ([] @ [Db_flush] @ [Db_close] @ [])"
    by (intro emits_seq) (simp_all add: emits_do_method_td emits_do_method_other)
  from emits_if_then [OF emits_try_except [OF this emits_print]]
  show ?thesis by (simp add: flush_and_close_database_def)
qed

lemma emits_cleanup: "emits (cleanup E) [Cmd_stop, Ws_close, Viz_stop, Db_flush, Db_close]"
proof -
  have "emits (cleanup E) ([] @ [Cmd_stop] @ [Ws_close] @ [Viz_stop] @ [Db_flush, Db_close] @ [])"
    unfolding cleanup_def
    by (intro emits_seq emits_stop_command_controller emits_close_websocket
          emits_stop_visualization emits_flush_and_close_database)
       (simp_all add: emits_do_method_td emits_do_method_other)
  then show ?thesis by simp
qed

lemma post_and_then:
  "post (and_then out k) = post out \<or> (\<exists>v. post (and_then out k) = post (k v (post out)))"
  by (cases out; cases "fst out") (auto simp: and_then_def)

lemma post_handle:
  "post (handle out c h) = post out \<or> (\<exists>e. post (handle out c h) = post (h e (post out)))"
  by (cases out; cases "fst out") (auto simp: handle_def)

lemma keeps_self_bind:
  assumes "keeps_self m" and "\<And>v. keeps_self (k v)"
  shows "keeps_self (bind m k)"
  unfolding keeps_self_def
proof
  fix s
  from post_and_then [of "m s" k] assms
  show "self (post (bind m k s)) = self s"
    by (auto simp: bind_def keeps_self_def)
qed

lemma keeps_self_seq: "keeps_self m \<Longrightarrow> keeps_self k \<Longrightarrow> keeps_self (seq m k)"
  by (simp add: seq_def keeps_self_bind)

lemma keeps_self_try_except:
  assumes "keeps_self m" and "\<And>e. keeps_self (h e)"
  shows "keeps_self (try_except m c h)"
  unfolding keeps_self_def
proof
  fix s
  from post_handle [of "m s" c h] assms
  show "self (post (try_except m c h s)) = self s"
    by (auto simp: try_except_def keeps_self_def)
qed

lemma keeps_self_skip: "keeps_self skip"
  by (simp add: keeps_self_def skip_def)

lemma keeps_self_print: "keeps_self (print m)"
  by (simp add: keeps_self_def print_def)

lemma keeps_self_sys_exit: "keeps_self (sys_exit n)"
  by (simp add: keeps_self_def sys_exit_def)

lemma keeps_self_if_then: "keeps_self m \<Longrightarrow> keeps_self (if_then c m)"
  by (simp add: keeps_self_def if_then_def skip_def)

lemma keeps_self_call_method: "keeps_self (call_method E a c)"
  by (simp add: keeps_self_def call_method_def split: prod.splits)

lemma keeps_self_do_method: "keeps_self (do_method E a c)"
  unfolding do_method_def by (intro keeps_self_bind keeps_self_call_method keeps_self_skip)

lemma keeps_self_visualizer_running: "keeps_self (visualizer_running E)"
  by (simp add: keeps_self_def visualizer_running_def)

lemmas keeps_self_intros =
  keeps_self_seq keeps_self_bind keeps_self_try_except keeps_self_skip keeps_self_print
  keeps_self_sys_exit keeps_self_if_then keeps_self_call_method keeps_self_do_method
  keeps_self_visualizer_running

lemma keeps_self_stop_command_controller: "keeps_self (stop_command_controller E)"
  unfolding stop_command_controller_def by (intro keeps_self_intros)

lemma keeps_self_close_websocket: "keeps_self (close_websocket E)"
  unfolding close_websocket_def by (intro keeps_self_intros)

lemma keeps_self_stop_visualization: "keeps_self (stop_visualization E)"
proof -
  have "keeps_self (if b then try_except (do_method E visualizer Viz_stop) is_Exception
              (\<lambda>e. print (''Error stopping visualization: '' @ str_exc e)) else skip)" for b
    by (cases b) (simp_all add: keeps_self_intros)
  then show ?thesis
    unfolding stop_visualization_def by (intro keeps_self_bind keeps_self_visualizer_running)
qed

lemma keeps_self_flush_and_close_database: "keeps_self (flush_and_close_database E)"
  unfolding flush_and_close_database_def by (intro keeps_self_intros)

lemma keeps_self_cleanup: "keeps_self (cleanup E)"
  unfolding cleanup_def
  by (intro keeps_self_seq keeps_self_do_method keeps_self_stop_command_controller
        keeps_self_close_websocket keeps_self_stop_visualization
        keeps_self_flush_and_close_database)

lemma quiet_bind:
  assumes "quiet P m" and "\<And>v. quiet P (k v)"
  shows "quiet P (bind m k)"
  unfolding quiet_def
proof
  fix s
  from evs_and_then [of "m s" k] assms
  show "filter P (evs (bind m k s)) = []"
    by (auto simp: bind_def quiet_def)
qed

lemma quiet_seq: "quiet P m \<Longrightarrow> quiet P k \<Longrightarrow> quiet P (seq m k)"
  by (simp add: seq_def quiet_bind)

lemma quiet_try_except:
  assumes "quiet P m" and "\<And>e. quiet P (h e)"
  shows "quiet P (try_except m c h)"
  unfolding quiet_def
proof
  fix s
  from evs_handle [of "m s" c h] assms
  show "filter P (evs (try_except m c h s)) = []"
    by (auto simp: try_except_def quiet_def)
qed

lemma quiet_skip: "quiet P skip"
  by (simp add: quiet_def skip_def)

lemma quiet_print: "\<not> P (Print m) \<Longrightarrow> quiet P (print m)"
  by (simp add: quiet_def print_def)

lemma quiet_if_then: "quiet P m \<Longrightarrow> quiet P (if_then c m)"
  by (simp add: quiet_def if_then_def skip_def)

lemma quiet_call_method: "(\<And>r. \<not> P (Call c r)) \<Longrightarrow> quiet P (call_method E a c)"
  by (simp add: quiet_def call_method_def split: prod.splits)

lemma quiet_do_method: "(\<And>r. \<not> P (Call c r)) \<Longrightarrow> quiet P (do_method E a c)"
  unfolding do_method_def by (intro quiet_bind quiet_call_method quiet_skip)

lemma quiet_visualizer_running: "(\<And>b. \<not> P (Running b)) \<Longrightarrow> quiet P (visualizer_running E)"
  by (simp add: quiet_def visualizer_running_def)

lemma quiet_guarded_call:
  assumes "\<And>r. \<not> P (Call c r)" and "\<And>m. \<not> P (Print m)"
  shows "quiet P (try_except (do_method E a c) catches (\<lambda>e. print (p e)))"
  by (intro quiet_try_except quiet_do_method quiet_print assms)

lemma within_refl: "within P k k"
  by (auto simp: within_def)

lemma within_seq_left:
  assumes "quiet P m" and "keeps_self m" and "within P n k"
  shows "within P (seq m n) k"
  unfolding within_def
proof
  fix s
  from evs_and_then [of "m s" "\<lambda>_. n"]
  show "filter P (evs (seq m n s)) = [] \<or>
        (\<exists>s'. self s' = self s \<and> filter P (evs (seq m n s)) = filter P (evs (k s')))"
  proof
    assume "evs (and_then (m s) (\<lambda>_. n)) = evs (m s)"
    with assms(1) show ?thesis by (simp add: seq_def bind_def quiet_def)
  next
    assume "\<exists>v. evs (and_then (m s) (\<lambda>_. n)) = evs (m s) @ evs (n (post (m s)))"
    with assms(1) have *: "filter P (evs (seq m n s)) = filter P (evs (n (post (m s))))"
      by (auto simp: seq_def bind_def quiet_def)
    from assms(2) have "self (post (m s)) = self s" by (simp add: keeps_self_def)
    with assms(3) * show ?thesis unfolding within_def by metis
  qed
qed

lemma within_seq_right:
  assumes "within P m k" and "quiet P n"
  shows "within P (seq m n) k"
  unfolding within_def
proof
  fix s
  from evs_and_then [of "m s" "\<lambda>_. n"] assms(2)
  have "filter P (evs (seq m n s)) = filter P (evs (m s))"
    by (auto simp: seq_def bind_def quiet_def)
  with assms(1) show "filter P (evs (seq m n s)) = [] \<or>
        (\<exists>s'. self s' = self s \<and> filter P (evs (seq m n s)) = filter P (evs (k s')))"
    by (simp add: within_def)
qed

lemma within_db_cleanup: "within is_db_event (cleanup E) (flush_and_close_database E)"
  unfolding cleanup_def
  apply (rule within_seq_left, rule quiet_do_method, simp, rule keeps_self_do_method)
  apply (rule within_seq_left, simp add: stop_command_controller_def quiet_if_then quiet_guarded_call,
         rule keeps_self_stop_command_controller)
  apply (rule within_seq_left, simp add: close_websocket_def quiet_if_then quiet_guarded_call,
         rule keeps_self_close_websocket)
  apply (rule within_seq_left)
    apply (simp add: stop_visualization_def)
    apply (rule quiet_bind, rule quiet_visualizer_running, simp)
    apply (simp add: quiet_skip quiet_guarded_call)
   apply (rule keeps_self_stop_visualization)
  apply (rule within_seq_right, rule within_refl, rule quiet_do_method, simp)
  done

lemma within_viz_cleanup: "within is_viz_event (cleanup E) (stop_visualization E)"
  unfolding cleanup_def
  apply (rule within_seq_left, rule quiet_do_method, simp, rule keeps_self_do_method)
  apply (rule within_seq_left, simp add: stop_command_controller_def quiet_if_then quiet_guarded_call,
         rule keeps_self_stop_command_controller)
  apply (rule within_seq_left, simp add: close_websocket_def quiet_if_then quiet_guarded_call,
         rule keeps_self_close_websocket)
  apply (rule within_seq_right, rule within_refl)
  apply (rule quiet_seq)
   apply (simp add: flush_and_close_database_def)
   apply (intro quiet_if_then quiet_try_except quiet_seq quiet_do_method quiet_print; simp)
  apply (rule quiet_do_method, simp)
  done

lemma evs_seq:
  "evs (seq m k s) = evs (m s) @ (case res (m s) of Return v \<Rightarrow> evs (k (post (m s))) | _ \<Rightarrow> [])"
  by (cases "m s"; cases "fst (m s)") (auto simp: seq_def bind_def and_then_def)

lemma res_seq:
  "res (seq m k s) =
     (case res (m s) of Return v \<Rightarrow> res (k (post (m s))) | Raise e \<Rightarrow> Raise e | Killed \<Rightarrow> Killed)"
  by (cases "m s"; cases "fst (m s)") (auto simp: seq_def bind_def and_then_def)

lemma post_seq:
  "post (seq m k s) = (case res (m s) of Return v \<Rightarrow> post (k (post (m s))) | _ \<Rightarrow> post (m s))"
  by (cases "m s"; cases "fst (m s)") (auto simp: seq_def bind_def and_then_def)

lemma evs_try_except:
  "evs (try_except m c h s) =
     evs (m s) @ (case res (m s) of Raise e \<Rightarrow> if c e then evs (h e (post (m s))) else [] | _ \<Rightarrow> [])"
  by (cases "m s"; cases "fst (m s)") (auto simp: try_except_def handle_def)

lemma res_try_except:
  "res (try_except m c h s) =
     (case res (m s) of Raise e \<Rightarrow> if c e then res (h e (post (m s))) else Raise e | r \<Rightarrow> r)"
  by (cases "m s"; cases "fst (m s)") (auto simp: try_except_def handle_def)

lemma post_try_except:
  "post (try_except m c h s) =
     (case res (m s) of Raise e \<Rightarrow> if c e then post (h e (post (m s))) else post (m s)
      | _ \<Rightarrow> post (m s))"
  by (cases "m s"; cases "fst (m s)") (auto simp: try_except_def handle_def)

lemma evs_do_method:
  "evs (do_method E a c s) = (if hasattr a s then [Call c (fst (invoke E c (world s)))] else [])"
  by (cases "invoke E c (world s)"; cases "fst (invoke E c (world s))")
     (auto simp: do_method_def bind_def and_then_def call_method_def skip_def)

lemma res_do_method:
  "res (do_method E a c s) =
     (if hasattr a s
      then (case fst (invoke E c (world s)) of
              Return v \<Rightarrow> Return () | Raise e \<Rightarrow> Raise e | Killed \<Rightarrow> Killed)
      else Raise (AttributeError a))"
  by (cases "invoke E c (world s)"; cases "fst (invoke E c (world s))")
     (auto simp: do_method_def bind_def and_then_def call_method_def skip_def)

lemma post_do_method:
  "post (do_method E a c s) =
     (if hasattr a s then s\<lparr>world := snd (invoke E c (world s))\<rparr> else s)"
  by (cases "invoke E c (world s)"; cases "fst (invoke E c (world s))")
     (auto simp: do_method_def bind_def and_then_def call_method_def skip_def)

lemma print_simps [simp]:
  "evs (print m s) = [Print m]" "res (print m s) = Return ()" "post (print m s) = s"
  by (simp_all add: print_def)

lemma skip_simps [simp]:
  "evs (skip s) = []" "res (skip s) = Return ()" "post (skip s) = s"
  by (simp_all add: skip_def)

lemma hasattr_world [simp]: "hasattr a (s\<lparr>world := w\<rparr>) = hasattr a s"
  by (simp add: hasattr_def)

lemmas run_simps = evs_seq res_seq post_seq evs_try_except res_try_except post_try_except
  evs_do_method res_do_method post_do_method if_then_def

lemma db_stage_shape: "flush_gates_close (filter is_db_event (evs (flush_and_close_database E s)))"
  by (auto simp: flush_and_close_database_def flush_gates_close_def run_simps split: result.splits)

lemma viz_stage_shape: "stop_iff_running (filter is_viz_event (evs (stop_visualization E s)))"
  by (simp add: stop_visualization_def stop_iff_running_def visualizer_running_def bind_def
        and_then_def run_simps split: result.splits)

lemma close_follows_flush:
  assumes shape: "flush_gates_close (filter is_db_event t)"
    and flush: "Call Db_flush r \<in> set t" and bad: "\<not> returned r" and ev: "ev \<in> set t"
  shows "\<not> is_close ev \<and> \<not> is_success_report ev"
proof -
  let ?u = "filter is_db_event t"
  have f: "Call Db_flush r \<in> set ?u" using flush by simp
  have one: "?u = [Call Db_flush r]"
  proof (cases ?u)
    case Nil
    with f show ?thesis by simp
  next
    case (Cons a u')
    show ?thesis
    proof (cases u')
      case Nil
      with Cons f show ?thesis by simp
    next
      case (Cons b u'')
      with \<open>?u = a # u'\<close> shape have a: "is_flush a" "call_returned a" and b: "is_close b"
        by (auto simp: flush_gates_close_def split: list.splits)
      from shape \<open>?u = a # u'\<close> Cons have "\<forall>x \<in> set u''. is_success_report x"
        by (auto simp: flush_gates_close_def split: list.splits)
      with f \<open>?u = a # u'\<close> Cons a b bad show ?thesis by auto
    qed
  qed
  show ?thesis
  proof (rule ccontr)
    assume "\<not> (\<not> is_close ev \<and> \<not> is_success_report ev)"
    then have "is_db_event ev" by (cases ev rule: is_db_event.cases) auto
    with ev have "ev \<in> set ?u" by simp
    with one have "ev = Call Db_flush r" by simp
    with \<open>\<not> (\<not> is_close ev \<and> \<not> is_success_report ev)\<close> show False by simp
  qed
qed

lemma cleanup_db_shape: "flush_gates_close (filter is_db_event (evs (cleanup E s)))"
proof -
  from within_db_cleanup [of E]
  have "filter is_db_event (evs (cleanup E s)) = [] \<or>
        (\<exists>s'. filter is_db_event (evs (cleanup E s)) =
               filter is_db_event (evs (flush_and_close_database E s')))"
    unfolding within_def by blast
  then show ?thesis
    by (auto simp: db_stage_shape) (simp add: flush_gates_close_def)
qed

lemma viz_shape_lemma:
  assumes "stop_iff_running (filter is_viz_event t)"
  shows "(\<exists>r. Call Viz_stop r \<in> set t) \<longleftrightarrow> Running True \<in> set t"
proof -
  let ?u = "filter is_viz_event t"
  have 1: "(\<exists>r. Call Viz_stop r \<in> set t) \<longleftrightarrow> (\<exists>r. Call Viz_stop r \<in> set ?u)" by simp
  have 2: "Running True \<in> set t \<longleftrightarrow> Running True \<in> set ?u" by simp
  have "(\<exists>r. Call Viz_stop r \<in> set ?u) \<longleftrightarrow> Running True \<in> set ?u"
  proof (cases ?u)
    case Nil
    then show ?thesis by simp
  next
    case (Cons a u')
    with assms show ?thesis
      by (cases u'; cases "hd u'" rule: is_stop.cases)
         (auto simp: stop_iff_running_def split: list.splits)
  qed
  with 1 2 show ?thesis by simp
qed

lemma cleanup_viz_shape: "stop_iff_running (filter is_viz_event (evs (cleanup E s)))"
proof -
  from within_viz_cleanup [of E]
  have "filter is_viz_event (evs (cleanup E s)) = [] \<or>
        (\<exists>s'. filter is_viz_event (evs (cleanup E s)) =
               filter is_viz_event (evs (stop_visualization E s')))"
    unfolding within_def by blast
  then show ?thesis
    by (auto simp: viz_stage_shape) (simp add: stop_iff_running_def)
qed

lemma viz_stage_iff:
  "(\<exists>r. Call Viz_stop r \<in> set (evs (stop_visualization E s))) \<longleftrightarrow>
     (hasattr visualizer s \<and> viz_running E (world s))"
  by (auto simp: stop_visualization_def visualizer_running_def bind_def
        and_then_def run_simps split: result.splits)

lemmas stage_defs = stop_command_controller_def close_websocket_def stop_visualization_def
  flush_and_close_database_def cleanup_def visualizer_running_def bind_def and_then_def

lemmas sample_defs = scripted_def all_fine_def failing_def built_def hasattr_def

lemma reported_append: "reported t \<Longrightarrow> reported u \<Longrightarrow> reported (t @ u)"
proof (induction t)
  case Nil
  then show ?case by simp
next
  case (Cons ev t)
  then show ?case by (cases t) (auto split: option.splits)
qed

lemma returnedE: "returned r \<Longrightarrow> (\<And>v. r = Return v \<Longrightarrow> P) \<Longrightarrow> P"
  by (cases r) auto

lemma console_step:
  assumes "console_returns E" and "is_console c" and "hasattr console_view s"
  shows "res (do_method E console_view c s) = Return ()"
    and "teardown_calls (evs (do_method E console_view c s)) = []"
    and "reported (evs (do_method E console_view c s))"
proof -
  from assms obtain v where v: "fst (invoke E c (world s)) = Return v"
    unfolding console_returns_def by (blast elim: returnedE)
  from assms(2) have nt: "\<not> is_teardown c" by (cases c) auto
  show "res (do_method E console_view c s) = Return ()"
    using assms(3) v by (simp add: res_do_method)
  show "teardown_calls (evs (do_method E console_view c s)) = []"
    using nt by (simp add: evs_do_method)
  show "reported (evs (do_method E console_view c s))"
    using v by (simp add: evs_do_method)
qed

lemma guarded_step:
  assumes "failures_are_Exceptions E" and "is_teardown c" and "hasattr a s"
  shows "res (try_except (do_method E a c) is_Exception
                (\<lambda>e. print (report_prefix c @ str_exc e)) s) = Return ()"
    and "teardown_calls (evs (try_except (do_method E a c) is_Exception
                (\<lambda>e. print (report_prefix c @ str_exc e)) s)) = [c]"
    and "reported (evs (try_except (do_method E a c) is_Exception
                (\<lambda>e. print (report_prefix c @ str_exc e)) s))"
proof -
  from assms have ab: "absorbed (fst (invoke E c (world s)))"
    unfolding failures_are_Exceptions_def by blast
  show "res (try_except (do_method E a c) is_Exception
                (\<lambda>e. print (report_prefix c @ str_exc e)) s) = Return ()"
    using ab assms(3)
    by (cases "fst (invoke E c (world s))") (simp_all add: res_try_except res_do_method)
  show "teardown_calls (evs (try_except (do_method E a c) is_Exception
                (\<lambda>e. print (report_prefix c @ str_exc e)) s)) = [c]"
    using ab assms(2,3)
    by (cases "fst (invoke E c (world s))")
       (simp_all add: evs_try_except res_do_method evs_do_method)
  show "reported (evs (try_except (do_method E a c) is_Exception
                (\<lambda>e. print (report_prefix c @ str_exc e)) s))"
    using ab assms(2,3)
    by (cases "fst (invoke E c (world s))")
       (simp_all add: evs_try_except res_do_method evs_do_method)
qed

lemma cmd_stage:
  assumes "failures_are_Exceptions E"
  shows "res (stop_command_controller E s) = Return ()"
    and "teardown_calls (evs (stop_command_controller E s)) =
           (if hasattr cmd_controller s then [Cmd_stop] else [])"
    and "reported (evs (stop_command_controller E s))"
  using guarded_step [OF assms, of Cmd_stop cmd_controller s]
  by (simp_all add: stop_command_controller_def if_then_def)

lemma ws_stage:
  assumes "failures_are_Exceptions E"
  shows "res (close_websocket E s) = Return ()"
    and "teardown_calls (evs (close_websocket E s)) =
           (if hasattr ws_controller s then [Ws_close] else [])"
    and "reported (evs (close_websocket E s))"
  using guarded_step [OF assms, of Ws_close ws_controller s]
  by (simp_all add: close_websocket_def if_then_def)

lemma viz_stage:
  assumes "failures_are_Exceptions E"
  shows "res (stop_visualization E s) = Return ()"
    and "teardown_calls (evs (stop_visualization E s)) =
           (if hasattr visualizer s \<and> viz_running E (world s) then [Viz_stop] else [])"
    and "reported (evs (stop_visualization E s))"
    and "Running b \<in> set (evs (stop_visualization E s)) \<longleftrightarrow>
           hasattr visualizer s \<and> b = viz_running E (world s)"
proof -
  have unfold: "stop_visualization E s =
      (if hasattr visualizer s
       then after [Running (viz_running E (world s))]
              (if viz_running E (world s)
               then try_except (do_method E visualizer Viz_stop) is_Exception
                      (\<lambda>e. print (report_prefix Viz_stop @ str_exc e)) s
               else skip s)
       else skip s)"
    by (simp add: stop_visualization_def visualizer_running_def bind_def and_then_def
          after_def skip_def)
  note g = guarded_step [OF assms, of Viz_stop visualizer s]
  show "res (stop_visualization E s) = Return ()"
    using g(1) by (simp add: unfold)
  show "teardown_calls (evs (stop_visualization E s)) =
           (if hasattr visualizer s \<and> viz_running E (world s) then [Viz_stop] else [])"
    using g(2) by (simp add: unfold)
  show "reported (evs (stop_visualization E s))"
    using g(3) by (simp add: unfold)
  have "Running b \<notin> set (evs (try_except (do_method E visualizer Viz_stop) is_Exception
                      (\<lambda>e. print (report_prefix Viz_stop @ str_exc e)) s))"
    by (simp add: evs_try_except evs_do_method split: result.splits)
  then show "Running b \<in> set (evs (stop_visualization E s)) \<longleftrightarrow>
           hasattr visualizer s \<and> b = viz_running E (world s)"
    by (auto simp: unfold)
qed

lemma absorbedE:
  "absorbed r \<Longrightarrow> (\<And>v. r = Return v \<Longrightarrow> P) \<Longrightarrow> (\<And>e. r = Raise e \<Longrightarrow> is_Exception e \<Longrightarrow> P) \<Longrightarrow> P"
  by (cases r) auto

lemma db_stage:
  assumes c: "console_returns E" and f: "failures_are_Exceptions E"
    and a: "hasattr console_view s"
  shows "res (flush_and_close_database E s) = Return ()"
    and "reported (evs (flush_and_close_database E s))"
    and "teardown_calls (evs (flush_and_close_database E s)) =
           (if hasattr db_manager s
            then (if (\<exists>v. Call Db_flush (Return v) \<in> set (evs (flush_and_close_database E s)))
                  then [Db_flush, Db_close] else [Db_flush])
            else [])"
proof -
  let ?w1 = "snd (invoke E (Console_print_info ''Flushing remaining database records...'' False)
                    (world s))"
  let ?w2 = "snd (invoke E Db_flush ?w1)"
  let ?w3 = "snd (invoke E Db_close ?w2)"
  from c obtain v0 where v0: "fst (invoke E (Console_print_info
        ''Flushing remaining database records...'' False) (world s)) = Return v0"
    unfolding console_returns_def by (force elim: returnedE)
  from c obtain v3 where v3: "fst (invoke E (Console_print_success
        ''Database closed successfully.'') ?w3) = Return v3"
    unfolding console_returns_def by (force elim: returnedE)
  from f have ab1: "absorbed (fst (invoke E Db_flush ?w1))"
    and ab2: "absorbed (fst (invoke E Db_close ?w2))"
    unfolding failures_are_Exceptions_def by auto
  have "res (flush_and_close_database E s) = Return () \<and>
        reported (evs (flush_and_close_database E s)) \<and>
        teardown_calls (evs (flush_and_close_database E s)) =
           (if hasattr db_manager s
            then (if (\<exists>v. Call Db_flush (Return v) \<in> set (evs (flush_and_close_database E s)))
                  then [Db_flush, Db_close] else [Db_flush])
            else [])"
  proof (cases "hasattr db_manager s")
    case False
    then show ?thesis by (simp add: flush_and_close_database_def if_then_def)
  next
    case True
    from ab1 show ?thesis
    proof (rule absorbedE)
      fix e assume "fst (invoke E Db_flush ?w1) = Raise e" "is_Exception e"
      with True a v0 show ?thesis
        by (simp add: flush_and_close_database_def run_simps)
    next
      fix v1 assume v1: "fst (invoke E Db_flush ?w1) = Return v1"
      from ab2 show ?thesis
      proof (rule absorbedE)
        fix e assume "fst (invoke E Db_close ?w2) = Raise e" "is_Exception e"
        with True a v0 v1 show ?thesis
          by (simp add: flush_and_close_database_def run_simps)
      next
        fix v2 assume "fst (invoke E Db_close ?w2) = Return v2"
        with True a v0 v1 v3 show ?thesis
          by (simp add: flush_and_close_database_def run_simps)
      qed
    qed
  qed
  then show "res (flush_and_close_database E s) = Return ()"
    and "reported (evs (flush_and_close_database E s))"
    and "teardown_calls (evs (flush_and_close_database E s)) =
           (if hasattr db_manager s
            then (if (\<exists>v. Call Db_flush (Return v) \<in> set (evs (flush_and_close_database E s)))
                  then [Db_flush, Db_close] else [Db_flush])
            else [])"
    by simp_all
qed

lemma hasattr_keeps: "keeps_self m \<Longrightarrow> hasattr a (post (m s)) = hasattr a s"
  by (simp add: keeps_self_def hasattr_def)

lemma seq_Return:
  assumes "res (m s) = Return v"
  shows "res (seq m k s) = res (k (post (m s)))"
    and "evs (seq m k s) = evs (m s) @ evs (k (post (m s)))"
    and "post (seq m k s) = post (k (post (m s)))"
  using assms by (simp_all add: res_seq evs_seq post_seq)

lemma cleanup_runs:
  assumes c: "console_returns E" and f: "failures_are_Exceptions E"
    and a: "hasattr console_view s"
  shows "\<exists>s1 s2 s3 s4 s5.
           self s1 = self s \<and> self s2 = self s \<and> self s3 = self s \<and> self s4 = self s \<and>
           self s5 = self s \<and>
           res (cleanup E s) = Return () \<and>
           evs (cleanup E s) =
             evs (do_method E console_view banner s) @ evs (stop_command_controller E s1) @
             evs (close_websocket E s2) @ evs (stop_visualization E s3) @
             evs (flush_and_close_database E s4) @ evs (do_method E console_view farewell s5)"
proof -
  let ?s1 = "post (do_method E console_view banner s)"
  let ?s2 = "post (stop_command_controller E ?s1)"
  let ?s3 = "post (close_websocket E ?s2)"
  let ?s4 = "post (stop_visualization E ?s3)"
  let ?s5 = "post (flush_and_close_database E ?s4)"
  have k1: "self ?s1 = self s"
    using keeps_self_do_method [of E console_view banner] by (simp add: keeps_self_def)
  have k2: "self ?s2 = self s"
    using keeps_self_stop_command_controller [of E] k1 by (simp add: keeps_self_def)
  have k3: "self ?s3 = self s"
    using keeps_self_close_websocket [of E] k2 by (simp add: keeps_self_def)
  have k4: "self ?s4 = self s"
    using keeps_self_stop_visualization [of E] k3 by (simp add: keeps_self_def)
  have k5: "self ?s5 = self s"
    using keeps_self_flush_and_close_database [of E] k4 by (simp add: keeps_self_def)
  have a4: "hasattr console_view ?s4" and a5: "hasattr console_view ?s5"
    using a k4 k5 by (simp_all add: hasattr_def)
  have r0: "res (do_method E console_view banner s) = Return ()"
    by (rule console_step(1) [OF c _ a]) (simp add: banner_def)
  have r5: "res (do_method E console_view farewell ?s5) = Return ()"
    by (rule console_step(1) [OF c _ a5]) (simp add: farewell_def)
  note r1 = cmd_stage(1) [OF f, of ?s1]
  note r2 = ws_stage(1) [OF f, of ?s2]
  note r3 = viz_stage(1) [OF f, of ?s3]
  note r4 = db_stage(1) [OF c f a4]
  have unfold: "cleanup E =
     seq (do_method E console_view banner)
    (seq (stop_command_controller E)
    (seq (close_websocket E)
    (seq (stop_visualization E)
    (seq (flush_and_close_database E)
         (do_method E console_view farewell)))))"
    by (simp add: cleanup_def banner_def farewell_def)
  have "res (cleanup E s) = Return ()"
    unfolding unfold using r0 r1 r2 r3 r4 r5 by (simp add: seq_Return)
  moreover have "evs (cleanup E s) =
             evs (do_method E console_view banner s) @ evs (stop_command_controller E ?s1) @
             evs (close_websocket E ?s2) @ evs (stop_visualization E ?s3) @
             evs (flush_and_close_database E ?s4) @ evs (do_method E console_view farewell ?s5)"
    unfolding unfold using r0 r1 r2 r3 r4 by (simp add: seq_Return)
  ultimately show ?thesis using k1 k2 k3 k4 k5 by blast
qed

lemma contained_seq:
  assumes "contained m" and "keeps_self m" and "contained k"
  shows "contained (seq m k)"
  unfolding contained_def
proof (intro allI impI)
  fix s e assume a: "hasattr console_view s" and r: "res (seq m k s) = Raise e"
  from assms(2) a have a': "hasattr console_view (post (m s))" by (simp add: hasattr_keeps)
  show "\<not> is_Exception e"
  proof (cases "res (m s)")
    case (Return v)
    with r have "res (k (post (m s))) = Raise e" by (simp add: res_seq)
    with assms(3) a' show ?thesis by (simp add: contained_def)
  next
    case (Raise e')
    with r have "e' = e" by (simp add: res_seq)
    with Raise assms(1) a show ?thesis by (simp add: contained_def)
  next
    case Killed
    with r show ?thesis by (simp add: res_seq)
  qed
qed

lemma guarded_escape:
  "res (try_except m is_Exception (\<lambda>e. print (p e)) s) = Raise e \<Longrightarrow> \<not> is_Exception e"
  by (auto simp: res_try_except split: result.splits if_splits)

lemma contained_try_except: "contained (try_except m is_Exception (\<lambda>e. print (p e)))"
  using guarded_escape by (fastforce simp: contained_def)

lemma contained_if_then: "contained m \<Longrightarrow> contained (if_then c m)"
  by (simp add: contained_def if_then_def)

lemma contained_console:
  "console_returns E \<Longrightarrow> is_console c \<Longrightarrow> contained (do_method E console_view c)"
  by (auto simp: contained_def console_step(1))

lemma contained_stop_visualization: "contained (stop_visualization E)"
proof -
  have "\<not> is_Exception e" if "res (stop_visualization E s) = Raise e" for s e
  proof (cases "hasattr visualizer s \<and> viz_running E (world s)")
    case True
    with that have "res (try_except (do_method E visualizer Viz_stop) is_Exception
              (\<lambda>e. print (''Error stopping visualization: '' @ str_exc e)) s) = Raise e"
      by (simp add: stop_visualization_def visualizer_running_def bind_def and_then_def)
    then show ?thesis by (rule guarded_escape)
  next
    case False
    with that show ?thesis
      by (auto simp: stop_visualization_def visualizer_running_def bind_def and_then_def
            split: if_splits)
  qed
  then show ?thesis by (auto simp: contained_def)
qed

lemma contained_cleanup:
  assumes "console_returns E"
  shows "contained (cleanup E)"
  unfolding cleanup_def
  by (intro contained_seq contained_console [OF assms] keeps_self_do_method
        keeps_self_stop_command_controller keeps_self_close_websocket
        keeps_self_stop_visualization keeps_self_flush_and_close_database
        contained_stop_visualization)
     (simp_all add: stop_command_controller_def close_websocket_def
        flush_and_close_database_def contained_if_then contained_try_except)

lemma confinedI:
  assumes "\<And>s c r. Call c r \<in> set (evs (m s)) \<Longrightarrow> hasattr (receiver c) s"
    and "\<And>s b. Running b \<in> set (evs (m s)) \<Longrightarrow> hasattr visualizer s"
  shows "confined m"
  using assms unfolding confined_def by blast

lemma confined_call: "confined m \<Longrightarrow> Call c r \<in> set (evs (m s)) \<Longrightarrow> hasattr (receiver c) s"
  unfolding confined_def by blast

lemma confined_running: "confined m \<Longrightarrow> Running b \<in> set (evs (m s)) \<Longrightarrow> hasattr visualizer s"
  unfolding confined_def by blast

lemma confined_bind:
  assumes m: "confined m" and ks: "keeps_self m" and k: "\<And>v. confined (k v)"
  shows "confined (bind m k)"
proof (rule confinedI)
  fix s c r assume in_evs: "Call c r \<in> set (evs (bind m k s))"
  from evs_and_then [of "m s" k] show "hasattr (receiver c) s"
  proof
    assume "evs (and_then (m s) k) = evs (m s)"
    with in_evs m show ?thesis by (simp add: bind_def confined_call)
  next
    assume "\<exists>v. evs (and_then (m s) k) = evs (m s) @ evs (k v (post (m s)))"
    then obtain v where "evs (and_then (m s) k) = evs (m s) @ evs (k v (post (m s)))" ..
    with in_evs have "Call c r \<in> set (evs (m s)) \<or> Call c r \<in> set (evs (k v (post (m s))))"
      by (simp add: bind_def)
    then show ?thesis
    proof
      assume "Call c r \<in> set (evs (m s))"
      with m show ?thesis by (rule confined_call)
    next
      assume "Call c r \<in> set (evs (k v (post (m s))))"
      with k have "hasattr (receiver c) (post (m s))" by (rule confined_call)
      with ks show ?thesis by (simp add: hasattr_keeps)
    qed
  qed
next
  fix s b assume in_evs: "Running b \<in> set (evs (bind m k s))"
  from evs_and_then [of "m s" k] show "hasattr visualizer s"
  proof
    assume "evs (and_then (m s) k) = evs (m s)"
    with in_evs m show ?thesis by (simp add: bind_def confined_running)
  next
    assume "\<exists>v. evs (and_then (m s) k) = evs (m s) @ evs (k v (post (m s)))"
    then obtain v where "evs (and_then (m s) k) = evs (m s) @ evs (k v (post (m s)))" ..
    with in_evs have "Running b \<in> set (evs (m s)) \<or> Running b \<in> set (evs (k v (post (m s))))"
      by (simp add: bind_def)
    then show ?thesis
    proof
      assume "Running b \<in> set (evs (m s))"
      with m show ?thesis by (rule confined_running)
    next
      assume "Running b \<in> set (evs (k v (post (m s))))"
      with k have "hasattr visualizer (post (m s))" by (rule confined_running)
      with ks show ?thesis by (simp add: hasattr_keeps)
    qed
  qed
qed

lemma confined_seq: "confined m \<Longrightarrow> keeps_self m \<Longrightarrow> confined k \<Longrightarrow> confined (seq m k)"
  by (simp add: seq_def confined_bind)

lemma confined_try_except:
  assumes m: "confined m" and ks: "keeps_self m" and k: "\<And>e. confined (h e)"
  shows "confined (try_except m c h)"
proof (rule confinedI)
  fix s c' r assume in_evs: "Call c' r \<in> set (evs (try_except m c h s))"
  from evs_handle [of "m s" c h] show "hasattr (receiver c') s"
  proof
    assume "evs (handle (m s) c h) = evs (m s)"
    with in_evs m show ?thesis by (simp add: try_except_def confined_call)
  next
    assume "\<exists>e. evs (handle (m s) c h) = evs (m s) @ evs (h e (post (m s)))"
    then obtain e where "evs (handle (m s) c h) = evs (m s) @ evs (h e (post (m s)))" ..
    with in_evs have "Call c' r \<in> set (evs (m s)) \<or> Call c' r \<in> set (evs (h e (post (m s))))"
      by (simp add: try_except_def)
    then show ?thesis
    proof
      assume "Call c' r \<in> set (evs (m s))"
      with m show ?thesis by (rule confined_call)
    next
      assume "Call c' r \<in> set (evs (h e (post (m s))))"
      with k have "hasattr (receiver c') (post (m s))" by (rule confined_call)
      with ks show ?thesis by (simp add: hasattr_keeps)
    qed
  qed
next
  fix s b assume in_evs: "Running b \<in> set (evs (try_except m c h s))"
  from evs_handle [of "m s" c h] show "hasattr visualizer s"
  proof
    assume "evs (handle (m s) c h) = evs (m s)"
    with in_evs m show ?thesis by (simp add: try_except_def confined_running)
  next
    assume "\<exists>e. evs (handle (m s) c h) = evs (m s) @ evs (h e (post (m s)))"
    then obtain e where "evs (handle (m s) c h) = evs (m s) @ evs (h e (post (m s)))" ..
    with in_evs have "Running b \<in> set (evs (m s)) \<or> Running b \<in> set (evs (h e (post (m s))))"
      by (simp add: try_except_def)
    then show ?thesis
    proof
      assume "Running b \<in> set (evs (m s))"
      with m show ?thesis by (rule confined_running)
    next
      assume "Running b \<in> set (evs (h e (post (m s))))"
      with k have "hasattr visualizer (post (m s))" by (rule confined_running)
      with ks show ?thesis by (simp add: hasattr_keeps)
    qed
  qed
qed

lemma confined_skip: "confined skip"
  by (simp add: confined_def)

lemma confined_print: "confined (print m)"
  by (simp add: confined_def)

lemma confined_if_then: "confined m \<Longrightarrow> confined (if_then c m)"
  by (simp add: confined_def if_then_def)

lemma confined_do_method: "receiver c = a \<Longrightarrow> confined (do_method E a c)"
  by (auto simp: confined_def evs_do_method split: if_splits)

lemma confined_visualizer_running: "confined (visualizer_running E)"
  by (simp add: confined_def visualizer_running_def)

lemma confined_stop_visualization: "confined (stop_visualization E)"
proof -
  have "confined (if b then try_except (do_method E visualizer Viz_stop) is_Exception
              (\<lambda>e. print (''Error stopping visualization: '' @ str_exc e)) else skip)" for b
    by (cases b)
       (simp_all add: confined_skip confined_try_except confined_do_method confined_print
          keeps_self_do_method)
  then show ?thesis
    unfolding stop_visualization_def
    by (intro confined_bind confined_visualizer_running keeps_self_visualizer_running)
qed

lemma confined_cleanup: "confined (cleanup E)"
  unfolding cleanup_def
  by (intro confined_seq confined_stop_visualization keeps_self_do_method
        keeps_self_stop_command_controller keeps_self_close_websocket
        keeps_self_stop_visualization keeps_self_flush_and_close_database)
     (simp_all add: stop_command_controller_def close_websocket_def
        flush_and_close_database_def confined_if_then confined_try_except confined_seq
        confined_do_method confined_print keeps_self_intros)

lemma in_teardown_calls: "Call c r \<in> set t \<Longrightarrow> is_teardown c \<Longrightarrow> c \<in> set (teardown_calls t)"
  by (induction t) (auto simp: teardown_calls_def)

lemma teardown_calls_in: "c \<in> set (teardown_calls t) \<Longrightarrow> \<exists>r. Call c r \<in> set t"
proof (induction t)
  case Nil
  then show ?case by simp
next
  case (Cons ev t)
  then show ?case by (cases ev) (auto split: if_splits)
qed

lemma cleanup_summary:
  assumes c: "console_returns E" and f: "failures_are_Exceptions E"
    and a: "hasattr console_view s"
  shows "res (cleanup E s) = Return ()"
    and "reported (evs (cleanup E s))"
    and "\<exists>V D. teardown_calls (evs (cleanup E s)) =
           (if hasattr cmd_controller s then [Cmd_stop] else []) @
           (if hasattr ws_controller s then [Ws_close] else []) @ V @ D \<and>
           (V = [] \<or> V = [Viz_stop]) \<and>
           (if hasattr db_manager s then D = [Db_flush] \<or> D = [Db_flush, Db_close] else D = [])"
    and "hasattr visualizer s \<Longrightarrow> \<exists>b. Running b \<in> set (evs (cleanup E s))"
proof -
  from cleanup_runs [OF c f a] obtain s1 s2 s3 s4 s5 where
    k: "self s1 = self s" "self s2 = self s" "self s3 = self s" "self s4 = self s"
       "self s5 = self s"
    and r: "res (cleanup E s) = Return ()"
    and e: "evs (cleanup E s) =
             evs (do_method E console_view banner s) @ evs (stop_command_controller E s1) @
             evs (close_websocket E s2) @ evs (stop_visualization E s3) @
             evs (flush_and_close_database E s4) @ evs (do_method E console_view farewell s5)"
    by blast
  have h: "hasattr x s1 = hasattr x s" "hasattr x s2 = hasattr x s" "hasattr x s3 = hasattr x s"
    "hasattr x s4 = hasattr x s" "hasattr x s5 = hasattr x s" for x
    using k by (simp_all add: hasattr_def)
  have b: "is_console banner" and fw: "is_console farewell"
    by (simp_all add: banner_def farewell_def)
  have a4: "hasattr console_view s4" and a5: "hasattr console_view s5" using a h by simp_all
  show "res (cleanup E s) = Return ()" by (rule r)
  show "reported (evs (cleanup E s))"
    unfolding e
    by (intro reported_append console_step(3) [OF c b a] console_step(3) [OF c fw a5]
          cmd_stage(3) [OF f] ws_stage(3) [OF f] viz_stage(3) [OF f] db_stage(2) [OF c f a4])
  show "\<exists>V D. teardown_calls (evs (cleanup E s)) =
           (if hasattr cmd_controller s then [Cmd_stop] else []) @
           (if hasattr ws_controller s then [Ws_close] else []) @ V @ D \<and>
           (V = [] \<or> V = [Viz_stop]) \<and>
           (if hasattr db_manager s then D = [Db_flush] \<or> D = [Db_flush, Db_close] else D = [])"
  proof (intro exI conjI)
    show "teardown_calls (evs (cleanup E s)) =
           (if hasattr cmd_controller s then [Cmd_stop] else []) @
           (if hasattr ws_controller s then [Ws_close] else []) @
           teardown_calls (evs (stop_visualization E s3)) @
           teardown_calls (evs (flush_and_close_database E s4))"
      unfolding e
      by (simp add: console_step(2) [OF c b a] console_step(2) [OF c fw a5]
            cmd_stage(2) [OF f] ws_stage(2) [OF f] h)
    show "teardown_calls (evs (stop_visualization E s3)) = [] \<or>
          teardown_calls (evs (stop_visualization E s3)) = [Viz_stop]"
      by (simp add: viz_stage(2) [OF f])
    show "if hasattr db_manager s
          then teardown_calls (evs (flush_and_close_database E s4)) = [Db_flush] \<or>
               teardown_calls (evs (flush_and_close_database E s4)) = [Db_flush, Db_close]
          else teardown_calls (evs (flush_and_close_database E s4)) = []"
      by (simp add: db_stage(3) [OF c f a4] h)
  qed
  show "\<exists>b. Running b \<in> set (evs (cleanup E s))" if "hasattr visualizer s"
  proof
    from that h have "hasattr visualizer s3" by simp
    then have "Running (viz_running E (world s3)) \<in> set (evs (stop_visualization E s3))"
      by (simp add: viz_stage(4) [OF f])
    then show "Running (viz_running E (world s3)) \<in> set (evs (cleanup E s))"
      unfolding e by simp
  qed
qed

lemma cleanup_attempts:
  assumes c: "console_returns E" and f: "failures_are_Exceptions E"
    and a: "hasattr console_view s"
  shows "Cmd_stop \<in> set (teardown_calls (evs (cleanup E s))) \<longleftrightarrow> hasattr cmd_controller s"
    and "Ws_close \<in> set (teardown_calls (evs (cleanup E s))) \<longleftrightarrow> hasattr ws_controller s"
    and "Db_flush \<in> set (teardown_calls (evs (cleanup E s))) \<longleftrightarrow> hasattr db_manager s"
    and "count_list (teardown_calls (evs (cleanup E s))) Cmd_stop =
           (if hasattr cmd_controller s then 1 else 0)"
    and "count_list (teardown_calls (evs (cleanup E s))) Ws_close =
           (if hasattr ws_controller s then 1 else 0)"
    and "count_list (teardown_calls (evs (cleanup E s))) Db_flush =
           (if hasattr db_manager s then 1 else 0)"
proof -
  from cleanup_summary(3) [OF c f a] obtain V D where
    t: "teardown_calls (evs (cleanup E s)) =
           (if hasattr cmd_controller s then [Cmd_stop] else []) @
           (if hasattr ws_controller s then [Ws_close] else []) @ V @ D"
    and V: "V = [] \<or> V = [Viz_stop]"
    and D: "if hasattr db_manager s then D = [Db_flush] \<or> D = [Db_flush, Db_close] else D = []"
    by blast
  show "Cmd_stop \<in> set (teardown_calls (evs (cleanup E s))) \<longleftrightarrow> hasattr cmd_controller s"
    unfolding t using V D by (auto split: if_splits)
  show "Ws_close \<in> set (teardown_calls (evs (cleanup E s))) \<longleftrightarrow> hasattr ws_controller s"
    unfolding t using V D by (auto split: if_splits)
  show "Db_flush \<in> set (teardown_calls (evs (cleanup E s))) \<longleftrightarrow> hasattr db_manager s"
    unfolding t using V D by (auto split: if_splits)
  show "count_list (teardown_calls (evs (cleanup E s))) Cmd_stop =
           (if hasattr cmd_controller s then 1 else 0)"
    unfolding t using V D by (auto split: if_splits)
  show "count_list (teardown_calls (evs (cleanup E s))) Ws_close =
           (if hasattr ws_controller s then 1 else 0)"
    unfolding t using V D by (auto split: if_splits)
  show "count_list (teardown_calls (evs (cleanup E s))) Db_flush =
           (if hasattr db_manager s then 1 else 0)"
    unfolding t using V D by (auto split: if_splits)
qed

lemma db_flush_called:
  assumes "console_returns E" and "hasattr console_view s" and "hasattr db_manager s"
  shows "\<exists>w. Call Db_flush (fst (invoke E Db_flush w)) \<in> set (evs (flush_and_close_database E s))"
proof -
  from assms(1) obtain v0 where "fst (invoke E (Console_print_info
        ''Flushing remaining database records...'' False) (world s)) = Return v0"
    unfolding console_returns_def by (force elim: returnedE)
  with assms(2,3) show ?thesis
    by (auto simp: flush_and_close_database_def run_simps)
qed

lemma cleanup_nominal:
  assumes c: "console_returns E"
    and r: "\<forall>c w. is_teardown c \<longrightarrow> returned (fst (invoke E c w))"
    and v: "\<forall>w. viz_running E w"
    and a: "hasattr console_view s" "hasattr cmd_controller s" "hasattr ws_controller s"
           "hasattr visualizer s" "hasattr db_manager s"
  shows "teardown_calls (evs (cleanup E s)) = [Cmd_stop, Ws_close, Viz_stop, Db_flush, Db_close]"
proof -
  have f: "failures_are_Exceptions E"
    unfolding failures_are_Exceptions_def
  proof (intro allI impI)
    fix c w assume "is_teardown c"
    with r have "returned (fst (invoke E c w))" by blast
    then show "absorbed (fst (invoke E c w))" by (cases "fst (invoke E c w)") auto
  qed
  from cleanup_runs [OF c f a(1)] obtain s1 s2 s3 s4 s5 where
    k: "self s1 = self s" "self s2 = self s" "self s3 = self s" "self s4 = self s"
       "self s5 = self s"
    and e: "evs (cleanup E s) =
             evs (do_method E console_view banner s) @ evs (stop_command_controller E s1) @
             evs (close_websocket E s2) @ evs (stop_visualization E s3) @
             evs (flush_and_close_database E s4) @ evs (do_method E console_view farewell s5)"
    by blast
  have h: "hasattr x s1 = hasattr x s" "hasattr x s2 = hasattr x s" "hasattr x s3 = hasattr x s"
    "hasattr x s4 = hasattr x s" "hasattr x s5 = hasattr x s" for x
    using k by (simp_all add: hasattr_def)
  have b: "is_console banner" and fw: "is_console farewell"
    by (simp_all add: banner_def farewell_def)
  have a4: "hasattr console_view s4" and a5: "hasattr console_view s5" using a h by simp_all
  from db_flush_called [OF c a4] a(5) h obtain w
    where "Call Db_flush (fst (invoke E Db_flush w)) \<in> set (evs (flush_and_close_database E s4))"
    by auto
  moreover from r have "returned (fst (invoke E Db_flush w))" by simp
  ultimately have "\<exists>v. Call Db_flush (Return v) \<in> set (evs (flush_and_close_database E s4))"
    by (cases "fst (invoke E Db_flush w)") auto
  then have D: "teardown_calls (evs (flush_and_close_database E s4)) = [Db_flush, Db_close]"
    using a(5) h by (simp add: db_stage(3) [OF c f a4])
  show ?thesis
    unfolding e
    using a v
    by (simp add: console_step(2) [OF c b a(1)] console_step(2) [OF c fw a5]
          cmd_stage(2) [OF f] ws_stage(2) [OF f] viz_stage(2) [OF f] D h)
qed

lemma emits_cleanup_subseq:
  "subseq (teardown_calls (evs (cleanup E s))) [Cmd_stop, Ws_close, Viz_stop, Db_flush, Db_close]"
  using emits_cleanup [of E] by (simp add: emits_def)

lemma console_returns_scripted:
  "console_returns (scripted f b n k) = (\<forall>c. is_console c \<longrightarrow> returned (f c))"
  by (simp add: console_returns_def scripted_def)

lemma failures_scripted:
  "failures_are_Exceptions (scripted f b n k) = (\<forall>c. is_teardown c \<longrightarrow> absorbed (f c))"
  by (simp add: failures_are_Exceptions_def scripted_def)

lemma all_fine_returned: "returned (all_fine c)"
  by (simp add: all_fine_def)

lemma failing_returned: "c \<noteq> bad \<Longrightarrow> returned (failing bad e c)"
  by (simp add: failing_def all_fine_def)

lemma failing_absorbed: "is_Exception e \<Longrightarrow> absorbed (failing bad e c)"
  by (simp add: failing_def all_fine_def)

lemma hasattr_built:
  "hasattr console_view built" "hasattr cmd_controller built" "hasattr ws_controller built"
  "hasattr visualizer built" "hasattr db_manager built"
  by (simp_all add: hasattr_def built_def)

lemmas comb_defs = res_def evs_def post_def after_def and_then_def bind_def seq_def skip_def
  if_then_def handle_def try_except_def try_finally_def hasattr_def call_method_def
  do_method_def print_def sys_exit_def visualizer_running_def

lemmas prog_defs = stop_command_controller_def close_websocket_def stop_visualization_def
  flush_and_close_database_def cleanup_def signal_handler_def signal_signal_def
  setup_signal_handlers_def deliver_def extract_configuration_def construct_def
  override_get_database_manager_def atexit_register_def init_def start_visualization_def
  startup_def start_def run_hook_def interpreter_exit_def fresh_def main_def

lemmas example_defs = scripted_def all_fine_def failing_def example_args_def built_def
  ascii_upper_def ascii_upper_char_def char_of_def bit_0

lemma repeat_cleanup:
  assumes c: "console_returns E" and f: "failures_are_Exceptions E"
    and a: "hasattr console_view s" "hasattr cmd_controller s" "hasattr ws_controller s"
           "hasattr db_manager s"
  shows "res (repeat n (cleanup E) s) = Return () \<and>
         count_list (teardown_calls (evs (repeat n (cleanup E) s))) Cmd_stop = n \<and>
         count_list (teardown_calls (evs (repeat n (cleanup E) s))) Ws_close = n \<and>
         count_list (teardown_calls (evs (repeat n (cleanup E) s))) Db_flush = n"
  using a
proof (induction n arbitrary: s)
  case 0
  show ?case by simp
next
  case (Suc n)
  let ?s = "post (cleanup E s)"
  have h: "hasattr x ?s = hasattr x s" for x
    by (rule hasattr_keeps) (rule keeps_self_cleanup)
  from Suc.prems h have "hasattr console_view ?s" "hasattr cmd_controller ?s"
    "hasattr ws_controller ?s" "hasattr db_manager ?s" by simp_all
  note IH = Suc.IH [OF this]
  note r = cleanup_summary(1) [OF c f Suc.prems(1)]
  note n = cleanup_attempts(4-6) [OF c f Suc.prems(1)]
  from IH r n Suc.prems show ?case
    by (simp add: seq_Return)
qed

lemma seq_ReturnD:
  assumes "res (seq m k s) = Return v"
  shows "\<exists>u. res (m s) = Return u" and "res (k (post (m s))) = Return v"
    and "evs (seq m k s) = evs (m s) @ evs (k (post (m s)))"
    and "post (seq m k s) = post (k (post (m s)))"
  using assms by (cases "res (m s)"; simp add: res_seq evs_seq post_seq)+

lemma construct_ReturnD:
  assumes "res (construct E a c s) = Return ()"
  shows "\<exists>v. evs (construct E a c s) = [Call c (Return v)]"
    and "self (post (construct E a c s)) = (self s)\<lparr>assigned := insert a (assigned (self s))\<rparr>"
    and "sig_handlers (post (construct E a c s)) = sig_handlers s"
    and "atexit_hooks (post (construct E a c s)) = atexit_hooks s"
  using assms
  by (cases "invoke E c (world s)"; cases "fst (invoke E c (world s))"; simp add: construct_def)+

lemma extract_configuration_simps:
  "res (extract_configuration E a s) = Return ()"
  "evs (extract_configuration E a s) = []"
  "self (post (extract_configuration E a s)) =
     (self s)\<lparr>db_name := arg_db_name a, symbols := map (str_upper E) (arg_symbols a),
              enable_viz := arg_viz a, batch_size := arg_batch_size a\<rparr>"
  "sig_handlers (post (extract_configuration E a s)) = sig_handlers s"
  "atexit_hooks (post (extract_configuration E a s)) = atexit_hooks s"
  by (simp_all add: extract_configuration_def)

lemma override_ReturnD:
  assumes "res (override_get_database_manager s) = Return ()"
  shows "evs (override_get_database_manager s) = [Override_get_database_manager]"
    and "post (override_get_database_manager s) = s"
  using assms by (simp_all add: override_get_database_manager_def split: if_splits)

lemma setup_signal_handlers_simps:
  "res (setup_signal_handlers s) = Return ()"
  "evs (setup_signal_handlers s) = []"
  "self (post (setup_signal_handlers s)) = self s"
  "sig_handlers (post (setup_signal_handlers s)) SIGINT = signal_handler_closure"
  "sig_handlers (post (setup_signal_handlers s)) SIGTERM = signal_handler_closure"
  "atexit_hooks (post (setup_signal_handlers s)) = atexit_hooks s"
  by (simp_all add: setup_signal_handlers_def signal_signal_def seq_def bind_def and_then_def
        after_def)

lemma atexit_register_simps:
  "res (atexit_register h s) = Return ()"
  "evs (atexit_register h s) = []"
  "self (post (atexit_register h s)) = self s"
  "sig_handlers (post (atexit_register h s)) = sig_handlers s"
  "atexit_hooks (post (atexit_register h s)) = h # atexit_hooks s"
  by (simp_all add: atexit_register_def)

lemma init_returns:
  assumes "res (init E a s) = Return ()"
  shows "\<exists>v1 v2 v3 v4 v5 v6 v7 v8.
           evs (init E a s) =
             [Call (New_TradeModel (map (str_upper E) (arg_symbols a))) (Return v1),
              Call (New_OrderBookModel (map (str_upper E) (arg_symbols a))) (Return v2),
              Call (New_DatabaseManager (arg_db_name a) (arg_batch_size a)) (Return v3),
              Call (New_ConsoleView (APP_VERSION E)) (Return v4),
              Call New_GuiView (Return v5),
              Call (New_VisualizationView (map (str_upper E) (arg_symbols a))) (Return v6),
              Call New_WebSocketController (Return v7),
              Call New_CommandController (Return v8),
              Override_get_database_manager]"
    and "sig_handlers (post (init E a s)) SIGINT = signal_handler_closure"
    and "sig_handlers (post (init E a s)) SIGTERM = signal_handler_closure"
    and "atexit_hooks (post (init E a s)) = cleanup_hook # atexit_hooks s"
    and "self (post (init E a s)) =
           \<lparr>db_name = arg_db_name a, symbols = map (str_upper E) (arg_symbols a),
            enable_viz = arg_viz a, batch_size = arg_batch_size a,
            assigned = assigned (self s) \<union> {trade_model, order_book_model, db_manager,
              console_view, gui_view, visualizer, ws_controller, cmd_controller}\<rparr>"
proof -
  define s0 where "s0 = post (extract_configuration E a s)"
  have self0: "self s0 = (self s)\<lparr>db_name := arg_db_name a, symbols := map (str_upper E) (arg_symbols a),
              enable_viz := arg_viz a, batch_size := arg_batch_size a\<rparr>"
    and h0: "sig_handlers s0 = sig_handlers s" and x0: "atexit_hooks s0 = atexit_hooks s"
    by (simp_all add: s0_def extract_configuration_simps)
  note d = seq_ReturnD [OF assms [unfolded init_def]]
  note a0 = d(2) [folded s0_def]
  note e = d(3) [folded s0_def, unfolded extract_configuration_simps]
  note p = d(4) [folded s0_def]
  define s1 where "s1 = post (construct E trade_model (New_TradeModel (symbols (self s0))) s0)"
  note d = seq_ReturnD [OF a0]
  from d(1) have r1: "res (construct E trade_model (New_TradeModel (symbols (self s0))) s0) = Return ()" by simp
  note a1 = d(2) [folded s1_def]
  note e1 = d(3) [folded s1_def]
  note p1 = d(4) [folded s1_def]
  from construct_ReturnD(1) [OF r1] obtain v1
    where t1: "evs (construct E trade_model (New_TradeModel (symbols (self s0))) s0) = [Call (New_TradeModel (symbols (self s0))) (Return v1)]" ..
  have self1: "self s1 = (self s0)\<lparr>assigned := insert trade_model (assigned (self s0))\<rparr>"
    and h1: "sig_handlers s1 = sig_handlers s0" and x1: "atexit_hooks s1 = atexit_hooks s0"
    using construct_ReturnD(2-4) [OF r1] by (simp_all add: s1_def)
  define s2 where "s2 = post (construct E order_book_model (New_OrderBookModel (symbols (self s1))) s1)"
  note d = seq_ReturnD [OF a1]
  from d(1) have r2: "res (construct E order_book_model (New_OrderBookModel (symbols (self s1))) s1) = Return ()" by simp
  note a2 = d(2) [folded s2_def]
  note e2 = d(3) [folded s2_def]
  note p2 = d(4) [folded s2_def]
  from construct_ReturnD(1) [OF r2] obtain v2
    where t2: "evs (construct E order_book_model (New_OrderBookModel (symbols (self s1))) s1) = [Call (New_OrderBookModel (symbols (self s1))) (Return v2)]" ..
  have self2: "self s2 = (self s1)\<lparr>assigned := insert order_book_model (assigned (self s1))\<rparr>"
    and h2: "sig_handlers s2 = sig_handlers s1" and x2: "atexit_hooks s2 = atexit_hooks s1"
    using construct_ReturnD(2-4) [OF r2] by (simp_all add: s2_def)
  define s3 where "s3 = post (construct E db_manager (New_DatabaseManager (db_name (self s2)) (batch_size (self s2))) s2)"
  note d = seq_ReturnD [OF a2]
  from d(1) have r3: "res (construct E db_manager (New_DatabaseManager (db_name (self s2)) (batch_size (self s2))) s2) = Return ()" by simp
  note a3 = d(2) [folded s3_def]
  note e3 = d(3) [folded s3_def]
  note p3 = d(4) [folded s3_def]
  from construct_ReturnD(1) [OF r3] obtain v3
    where t3: "evs (construct E db_manager (New_DatabaseManager (db_name (self s2)) (batch_size (self s2))) s2) = [Call (New_DatabaseManager (db_name (self s2)) (batch_size (self s2))) (Return v3)]" ..
  have self3: "self s3 = (self s2)\<lparr>assigned := insert db_manager (assigned (self s2))\<rparr>"
    and h3: "sig_handlers s3 = sig_handlers s2" and x3: "atexit_hooks s3 = atexit_hooks s2"
    using construct_ReturnD(2-4) [OF r3] by (simp_all add: s3_def)
  define s4 where "s4 = post (construct E console_view (New_ConsoleView (APP_VERSION E)) s3)"
  note d = seq_ReturnD [OF a3]
  from d(1) have r4: "res (construct E console_view (New_ConsoleView (APP_VERSION E)) s3) = Return ()" by simp
  note a4 = d(2) [folded s4_def]
  note e4 = d(3) [folded s4_def]
  note p4 = d(4) [folded s4_def]
  from construct_ReturnD(1) [OF r4] obtain v4
    where t4: "evs (construct E console_view (New_ConsoleView (APP_VERSION E)) s3) = [Call (New_ConsoleView (APP_VERSION E)) (Return v4)]" ..
  have self4: "self s4 = (self s3)\<lparr>assigned := insert console_view (assigned (self s3))\<rparr>"
    and h4: "sig_handlers s4 = sig_handlers s3" and x4: "atexit_hooks s4 = atexit_hooks s3"
    using construct_ReturnD(2-4) [OF r4] by (simp_all add: s4_def)
  define s5 where "s5 = post (construct E gui_view (New_GuiView) s4)"
  note d = seq_ReturnD [OF a4]
  from d(1) have r5: "res (construct E gui_view (New_GuiView) s4) = Return ()" by simp
  note a5 = d(2) [folded s5_def]
  note e5 = d(3) [folded s5_def]
  note p5 = d(4) [folded s5_def]
  from construct_ReturnD(1) [OF r5] obtain v5
    where t5: "evs (construct E gui_view (New_GuiView) s4) = [Call (New_GuiView) (Return v5)]" ..
  have self5: "self s5 = (self s4)\<lparr>assigned := insert gui_view (assigned (self s4))\<rparr>"
    and h5: "sig_handlers s5 = sig_handlers s4" and x5: "atexit_hooks s5 = atexit_hooks s4"
    using construct_ReturnD(2-4) [OF r5] by (simp_all add: s5_def)
  define s6 where "s6 = post (construct E visualizer (New_VisualizationView (symbols (self s5))) s5)"
  note d = seq_ReturnD [OF a5]
  from d(1) have r6: "res (construct E visualizer (New_VisualizationView (symbols (self s5))) s5) = Return ()" by simp
  note a6 = d(2) [folded s6_def]
  note e6 = d(3) [folded s6_def]
  note p6 = d(4) [folded s6_def]
  from construct_ReturnD(1) [OF r6] obtain v6
    where t6: "evs (construct E visualizer (New_VisualizationView (symbols (self s5))) s5) = [Call (New_VisualizationView (symbols (self s5))) (Return v6)]" ..
  have self6: "self s6 = (self s5)\<lparr>assigned := insert visualizer (assigned (self s5))\<rparr>"
    and h6: "sig_handlers s6 = sig_handlers s5" and x6: "atexit_hooks s6 = atexit_hooks s5"
    using construct_ReturnD(2-4) [OF r6] by (simp_all add: s6_def)
  define s7 where "s7 = post (construct E ws_controller (New_WebSocketController) s6)"
  note d = seq_ReturnD [OF a6]
  from d(1) have r7: "res (construct E ws_controller (New_WebSocketController) s6) = Return ()" by simp
  note a7 = d(2) [folded s7_def]
  note e7 = d(3) [folded s7_def]
  note p7 = d(4) [folded s7_def]
  from construct_ReturnD(1) [OF r7] obtain v7
    where t7: "evs (construct E ws_controller (New_WebSocketController) s6) = [Call (New_WebSocketController) (Return v7)]" ..
  have self7: "self s7 = (self s6)\<lparr>assigned := insert ws_controller (assigned (self s6))\<rparr>"
    and h7: "sig_handlers s7 = sig_handlers s6" and x7: "atexit_hooks s7 = atexit_hooks s6"
    using construct_ReturnD(2-4) [OF r7] by (simp_all add: s7_def)
  define s8 where "s8 = post (construct E cmd_controller (New_CommandController) s7)"
  note d = seq_ReturnD [OF a7]
  from d(1) have r8: "res (construct E cmd_controller (New_CommandController) s7) = Return ()" by simp
  note a8 = d(2) [folded s8_def]
  note e8 = d(3) [folded s8_def]
  note p8 = d(4) [folded s8_def]
  from construct_ReturnD(1) [OF r8] obtain v8
    where t8: "evs (construct E cmd_controller (New_CommandController) s7) = [Call (New_CommandController) (Return v8)]" ..
  have self8: "self s8 = (self s7)\<lparr>assigned := insert cmd_controller (assigned (self s7))\<rparr>"
    and h8: "sig_handlers s8 = sig_handlers s7" and x8: "atexit_hooks s8 = atexit_hooks s7"
    using construct_ReturnD(2-4) [OF r8] by (simp_all add: s8_def)
  note d = seq_ReturnD [OF a8]
  from d(1) have r9: "res (override_get_database_manager s8) = Return ()" by simp
  note o = override_ReturnD [OF r9]
  note a9 = d(2) [unfolded o]
  note e9 = d(3) [unfolded o]
  note p9 = d(4) [unfolded o]
  define s10 where "s10 = post (setup_signal_handlers s8)"
  note d = seq_ReturnD [OF a9]
  note e10 = d(3) [folded s10_def, unfolded setup_signal_handlers_simps atexit_register_simps]
  note p10 = d(4) [folded s10_def]
  have sym: "symbols (self s0) = map (str_upper E) (arg_symbols a)" "db_name (self s0) = arg_db_name a"
    "batch_size (self s0) = arg_batch_size a"
    by (simp_all add: self0)
  have ev: "evs (init E a s) =
      [Call (New_TradeModel (symbols (self s0))) (Return v1),
       Call (New_OrderBookModel (symbols (self s1))) (Return v2),
       Call (New_DatabaseManager (db_name (self s2)) (batch_size (self s2))) (Return v3),
       Call (New_ConsoleView (APP_VERSION E)) (Return v4),
       Call New_GuiView (Return v5),
       Call (New_VisualizationView (symbols (self s5))) (Return v6),
       Call New_WebSocketController (Return v7),
       Call New_CommandController (Return v8),
       Override_get_database_manager]"
    unfolding init_def e e1 e2 e3 e4 e5 e6 e7 e8 e9 e10 t1 t2 t3 t4 t5 t6 t7 t8 by simp
  have "evs (init E a s) =
      [Call (New_TradeModel (map (str_upper E) (arg_symbols a))) (Return v1),
       Call (New_OrderBookModel (map (str_upper E) (arg_symbols a))) (Return v2),
       Call (New_DatabaseManager (arg_db_name a) (arg_batch_size a)) (Return v3),
       Call (New_ConsoleView (APP_VERSION E)) (Return v4),
       Call New_GuiView (Return v5),
       Call (New_VisualizationView (map (str_upper E) (arg_symbols a))) (Return v6),
       Call New_WebSocketController (Return v7),
       Call New_CommandController (Return v8),
       Override_get_database_manager]"
    unfolding ev by (simp add: self1 self2 self3 self4 self5 sym)
  then show "\<exists>v1 v2 v3 v4 v5 v6 v7 v8.
           evs (init E a s) =
             [Call (New_TradeModel (map (str_upper E) (arg_symbols a))) (Return v1),
              Call (New_OrderBookModel (map (str_upper E) (arg_symbols a))) (Return v2),
              Call (New_DatabaseManager (arg_db_name a) (arg_batch_size a)) (Return v3),
              Call (New_ConsoleView (APP_VERSION E)) (Return v4),
              Call New_GuiView (Return v5),
              Call (New_VisualizationView (map (str_upper E) (arg_symbols a))) (Return v6),
              Call New_WebSocketController (Return v7),
              Call New_CommandController (Return v8),
              Override_get_database_manager]"
    by blast
  have pst: "post (init E a s) = post (atexit_register cleanup_hook s10)"
    unfolding init_def p p1 p2 p3 p4 p5 p6 p7 p8 p9 p10 ..
  show "sig_handlers (post (init E a s)) SIGINT = signal_handler_closure"
    and "sig_handlers (post (init E a s)) SIGTERM = signal_handler_closure"
    by (simp_all add: pst atexit_register_simps s10_def setup_signal_handlers_simps)
  show "atexit_hooks (post (init E a s)) = cleanup_hook # atexit_hooks s"
    by (simp add: pst atexit_register_simps s10_def setup_signal_handlers_simps
          x8 x7 x6 x5 x4 x3 x2 x1 x0)
  show "self (post (init E a s)) =
           \<lparr>db_name = arg_db_name a, symbols = map (str_upper E) (arg_symbols a),
            enable_viz = arg_viz a, batch_size = arg_batch_size a,
            assigned = assigned (self s) \<union> {trade_model, order_book_model, db_manager,
              console_view, gui_view, visualizer, ws_controller, cmd_controller}\<rparr>"
    by (cases "self s")
       (auto simp: pst atexit_register_simps s10_def setup_signal_handlers_simps
          self8 self7 self6 self5 self4 self3 self2 self1 self0)
qed

lemma inv_run_seq:
  assumes "inv_run I ok m" and "inv_run I ok k"
  shows "inv_run I ok (seq m k)"
  unfolding inv_run_def
proof (intro allI impI)
  fix s assume "I s"
  with assms(1) have m: "I (post (m s))" "list_all ok (evs (m s))" by (simp_all add: inv_run_def)
  with assms(2) have k: "I (post (k (post (m s))))" "list_all ok (evs (k (post (m s))))"
    by (simp_all add: inv_run_def)
  from m k show "I (post (seq m k s)) \<and> list_all ok (evs (seq m k s))"
    by (cases "res (m s)") (simp_all add: post_seq evs_seq)
qed

lemma inv_run_construct:
  assumes "\<And>s w. I s \<Longrightarrow> I (s\<lparr>world := w\<rparr>)"
    and "\<And>s w. I s \<Longrightarrow> I (s\<lparr>world := w, self := (self s)\<lparr>assigned := insert a (assigned (self s))\<rparr>\<rparr>)"
    and "\<And>s r. I s \<Longrightarrow> ok (Call (c s) r)"
  shows "inv_run I ok (\<lambda>s. construct E a (c s) s)"
  unfolding inv_run_def
proof (intro allI impI)
  fix s assume "I s"
  with assms show "I (post (construct E a (c s) s)) \<and> list_all ok (evs (construct E a (c s) s))"
    by (cases "invoke E (c s) (world s)"; cases "fst (invoke E (c s) (world s))")
       (simp_all add: construct_def)
qed

lemma inv_run_rest:
  "inv_run (symbols_are U) (passes U)
    (seq (\<lambda>s. construct E trade_model (New_TradeModel (symbols (self s))) s)
    (seq (\<lambda>s. construct E order_book_model (New_OrderBookModel (symbols (self s))) s)
    (seq (\<lambda>s. construct E db_manager
                 (New_DatabaseManager (db_name (self s)) (batch_size (self s))) s)
    (seq (construct E console_view (New_ConsoleView (APP_VERSION E)))
    (seq (construct E gui_view New_GuiView)
    (seq (\<lambda>s. construct E visualizer (New_VisualizationView (symbols (self s))) s)
    (seq (construct E ws_controller New_WebSocketController)
    (seq (construct E cmd_controller New_CommandController)
    (seq override_get_database_manager
    (seq setup_signal_handlers
         (atexit_register cleanup_hook)))))))))))"
proof -
  have c: "inv_run (symbols_are U) (passes U) (\<lambda>s. construct E a (c s) s)"
    if "\<And>s r. symbols_are U s \<Longrightarrow> passes U (Call (c s) r)" for a c
    by (rule inv_run_construct) (simp_all add: symbols_are_def that)
  have o: "inv_run (symbols_are U) (passes U) override_get_database_manager"
    by (simp add: inv_run_def override_get_database_manager_def passes_def)
  have g: "inv_run (symbols_are U) (passes U) setup_signal_handlers"
    by (simp add: inv_run_def setup_signal_handlers_simps symbols_are_def)
  have x: "inv_run (symbols_are U) (passes U) (atexit_register cleanup_hook)"
    by (simp add: inv_run_def atexit_register_simps symbols_are_def)
  show ?thesis
    by (intro inv_run_seq o g x c [of "\<lambda>s. New_TradeModel (symbols (self s))"]
          c [of "\<lambda>s. New_OrderBookModel (symbols (self s))"]
          c [of "\<lambda>s. New_DatabaseManager (db_name (self s)) (batch_size (self s))"]
          c [of "\<lambda>s. New_ConsoleView (APP_VERSION E)"] c [of "\<lambda>s. New_GuiView"]
          c [of "\<lambda>s. New_VisualizationView (symbols (self s))"]
          c [of "\<lambda>s. New_WebSocketController"] c [of "\<lambda>s. New_CommandController"])
       (simp_all add: passes_def symbols_are_def)
qed

lemma init_symbols:
  "symbols (self (post (init E a s))) = map (str_upper E) (arg_symbols a)"
  "list_all (passes (map (str_upper E) (arg_symbols a))) (evs (init E a s))"
proof -
  let ?U = "map (str_upper E) (arg_symbols a)"
  let ?s = "post (extract_configuration E a s)"
  have "symbols_are ?U ?s" by (simp add: symbols_are_def extract_configuration_simps)
  with inv_run_rest [of ?U E]
  have "symbols_are ?U (post (init E a s)) \<and> list_all (passes ?U) (evs (init E a s))"
    unfolding inv_run_def init_def [of E a]
    by (simp add: post_seq [of "extract_configuration E a"] evs_seq [of "extract_configuration E a"]
          extract_configuration_simps)
  then show "symbols (self (post (init E a s))) = map (str_upper E) (arg_symbols a)"
    and "list_all (passes (map (str_upper E) (arg_symbols a))) (evs (init E a s))"
    by (simp_all add: symbols_are_def)
qed

lemma evs_bind:
  "evs (bind m k s) =
     evs (m s) @ (case res (m s) of Return v \<Rightarrow> evs (k v (post (m s))) | _ \<Rightarrow> [])"
  by (cases "m s"; cases "fst (m s)") (auto simp: bind_def and_then_def)

lemma res_bind:
  "res (bind m k s) =
     (case res (m s) of Return v \<Rightarrow> res (k v (post (m s))) | Raise e \<Rightarrow> Raise e
      | Killed \<Rightarrow> Killed)"
  by (cases "m s"; cases "fst (m s)") (auto simp: bind_def and_then_def)

lemma post_bind:
  "post (bind m k s) =
     (case res (m s) of Return v \<Rightarrow> post (k v (post (m s))) | _ \<Rightarrow> post (m s))"
  by (cases "m s"; cases "fst (m s)") (auto simp: bind_def and_then_def)

lemma call_method_simps:
  "evs (call_method E a c s) = (if hasattr a s then [Call c (fst (invoke E c (world s)))] else [])"
  "res (call_method E a c s) =
     (if hasattr a s then fst (invoke E c (world s)) else Raise (AttributeError a))"
  "post (call_method E a c s) =
     (if hasattr a s then s\<lparr>world := snd (invoke E c (world s))\<rparr> else s)"
  by (simp_all add: call_method_def split: prod.splits)

lemma evs_handle_prefix: "\<exists>t. evs (handle out c h) = evs out @ t"
  using evs_handle [of out c h] by auto

lemma try_finally_Killed: "res out = Killed \<Longrightarrow> try_finally out fin = out"
  by (cases out) (simp add: try_finally_def)

lemma try_finally_runs:
  assumes "res out \<noteq> Killed"
  shows "evs (try_finally out fin) = evs out @ evs (fin (post out))"
    and "post (try_finally out fin) = post (fin (post out))"
    and "res (try_finally out fin) =
           (case res (fin (post out)) of Return v \<Rightarrow> res out | r \<Rightarrow> r)"
  using assms
  by (cases out; cases "fst out"; cases "fin (post out)"; cases "fst (fin (post out))";
      simp add: try_finally_def)+

lemma keeps_self_dep_do_method: "keeps_self (\<lambda>s. do_method E a (c s) s)"
  by (simp add: keeps_self_def post_do_method)

lemma keeps_self_start_visualization: "keeps_self (start_visualization E)"
proof -
  have "keeps_self (if b then do_method E console_view x else do_method E console_view y)"
    for b x y
    by (cases b) (simp_all add: keeps_self_do_method)
  then show ?thesis
    unfolding start_visualization_def
    by (intro keeps_self_if_then keeps_self_seq keeps_self_bind keeps_self_do_method
          keeps_self_call_method)
qed

lemma keeps_self_startup: "keeps_self (startup E)"
  unfolding startup_def
  by (intro keeps_self_seq keeps_self_dep_do_method keeps_self_do_method
        keeps_self_start_visualization)

lemma keeps_self_signal_handler: "keeps_self (signal_handler E)"
  unfolding signal_handler_def
  by (intro keeps_self_seq keeps_self_print keeps_self_cleanup keeps_self_sys_exit)

lemma keeps_self_deliver: "keeps_self (deliver E sig)"
  using keeps_self_signal_handler [of E]
  by (auto simp: keeps_self_def deliver_def split: handler.splits signum.splits)

lemma keep_alive_self:
  assumes "keep_alive E s = Some out"
  shows "self (post out) = self s"
proof (rule keep_alive.raw_induct [where P = "\<lambda>E s out. self (post out) = self s", OF _ assms])
  fix ka :: "'a env \<Rightarrow> 'a state \<Rightarrow> ('a, unit) outcome option" and E s out
  assume IH: "\<And>E s out. ka E s = Some out \<Longrightarrow> self (post out) = self s"
    and body: "(case sleep E (world s) of
        (Slept, w) \<Rightarrow>
          Option.bind (ka E (s\<lparr>world := w\<rparr>)) (\<lambda>out. Some (after [Sleep] out))
      | (Signal sig, w) \<Rightarrow>
          (case deliver E sig (s\<lparr>world := w\<rparr>) of
             (Return _, t, s') \<Rightarrow>
               Option.bind (ka E s') (\<lambda>out. Some (after (Sleep # t) out))
           | (Raise e, t, s') \<Rightarrow> Some (Raise e, Sleep # t, s')
           | (Killed, t, s') \<Rightarrow> Some (Killed, Sleep # t, s'))
      | (Interrupted e, w) \<Rightarrow> Some (Raise e, [Sleep], s\<lparr>world := w\<rparr>)) = Some out"
  obtain k w where sl: "sleep E (world s) = (k, w)" by (cases "sleep E (world s)")
  show "self (post out) = self s"
  proof (cases k)
    case Slept
    with body sl obtain out' where o: "ka E (s\<lparr>world := w\<rparr>) = Some out'" "out = after [Sleep] out'"
      by (auto simp: bind_eq_Some_conv)
    from IH [OF o(1)] o(2) show ?thesis by simp
  next
    case (Interrupted e)
    with body sl show ?thesis by auto
  next
    case (Signal sig)
    let ?d = "deliver E sig (s\<lparr>world := w\<rparr>)"
    have d: "self (post ?d) = self s"
      using keeps_self_deliver [of E sig] by (simp add: keeps_self_def)
    obtain r t s' where dv: "?d = (r, t, s')" by (cases ?d)
    with d have s': "self s' = self s" by simp
    show ?thesis
    proof (cases r)
      case (Return x)
      with body sl Signal dv obtain out' where o: "ka E s' = Some out'" "out = after (Sleep # t) out'"
        by (auto simp: bind_eq_Some_conv)
      from IH [OF o(1)] o(2) s' show ?thesis by simp
    next
      case (Raise e)
      with body sl Signal dv s' show ?thesis by auto
    next
      case Killed
      with body sl Signal dv s' show ?thesis by auto
    qed
  qed
qed

lemma keep_alive_sleeps:
  assumes "keep_alive E s = Some out"
  shows "\<exists>t. evs out = Sleep # t"
proof -
  obtain k w where sl: "sleep E (world s) = (k, w)" by (cases "sleep E (world s)")
  note u = assms [unfolded keep_alive.simps [of E s]]
  show ?thesis
  proof (cases k)
    case Slept
    with u sl show ?thesis by (auto simp: bind_eq_Some_conv)
  next
    case (Interrupted e)
    with u sl show ?thesis by auto
  next
    case (Signal sig)
    obtain r t s' where dv: "deliver E sig (s\<lparr>world := w\<rparr>) = (r, t, s')"
      by (cases "deliver E sig (s\<lparr>world := w\<rparr>)")
    with u sl Signal show ?thesis
      by (cases r) (auto simp: bind_eq_Some_conv)
  qed
qed

lemma keep_alive_signal:
  assumes "sleep E (world s) = (Signal sig, w)"
    and "sig_handlers s sig = signal_handler_closure"
  shows "keep_alive E s = Some (after [Sleep] (signal_handler E (s\<lparr>world := w\<rparr>)))"
proof -
  have d: "deliver E sig (s\<lparr>world := w\<rparr>) = signal_handler E (s\<lparr>world := w\<rparr>)"
    using assms(2) by (simp add: deliver_def)
  have nr: "res (signal_handler E (s\<lparr>world := w\<rparr>)) \<noteq> Return ()"
    by (simp add: signal_handler_def res_seq sys_exit_def split: result.splits)
  obtain r t s' where v: "signal_handler E (s\<lparr>world := w\<rparr>) = (r, t, s')"
    by (cases "signal_handler E (s\<lparr>world := w\<rparr>)")
  with nr have "r \<noteq> Return ()" by simp
  with assms(1) d v show ?thesis
    by (cases r) (simp_all add: keep_alive.simps [of E s] after_def)
qed

lemma start_cases:
  assumes "start E s = Some out"
  obtains (aborted) "\<forall>v. res (startup E s) \<noteq> Return v" "out = startup E s"
  | (looped) loop where "res (startup E s) = Return ()"
      "keep_alive E (post (startup E s)) = Some loop"
      "out = after (evs (startup E s))
               (try_finally
                  (handle loop is_KeyboardInterrupt (\<lambda>_. do_method E console_view shutting_down))
                  (cleanup E))"
proof -
  obtain r t s' where v: "startup E s = (r, t, s')" by (cases "startup E s")
  show ?thesis
  proof (cases r)
    case (Return x)
    from assms have "map_option
            (\<lambda>loop. after t
               (try_finally
                  (handle loop is_KeyboardInterrupt
                     (\<lambda>_. do_method E console_view shutting_down))
                  (cleanup E)))
            (keep_alive E s') = Some out"
      unfolding start_def v Return shutting_down_def by simp
    then obtain loop where "keep_alive E s' = Some loop"
      "out = after t (try_finally
                  (handle loop is_KeyboardInterrupt (\<lambda>_. do_method E console_view shutting_down))
                  (cleanup E))"
      unfolding map_option_eq_Some by blast
    moreover from v Return have "res (startup E s) = Return ()" "post (startup E s) = s'"
      "evs (startup E s) = t" by simp_all
    ultimately show ?thesis using looped by blast
  next
    case (Raise e)
    from assms have "out = startup E s" unfolding start_def v Raise by simp
    moreover from v Raise have "\<forall>v. res (startup E s) \<noteq> Return v" by simp
    ultimately show ?thesis using aborted by blast
  next
    case Killed
    from assms have "out = startup E s" unfolding start_def v Killed by simp
    moreover from v Killed have "\<forall>v. res (startup E s) \<noteq> Return v" by simp
    ultimately show ?thesis using aborted by blast
  qed
qed

lemma handle_self:
  assumes "\<And>e. keeps_self (h e)"
  shows "self (post (handle out c h)) = self (post out)"
  using post_handle [of out c h] assms by (auto simp: keeps_self_def)

lemma handle_Killed: "res (handle out c h) \<noteq> Killed \<Longrightarrow> res out \<noteq> Killed"
  by (cases out; cases "fst out") (auto simp: handle_def)

lemma start_self:
  assumes "start E s = Some out"
  shows "self (post out) = self s"
  using assms
proof (cases rule: start_cases)
  case aborted
  then show ?thesis using keeps_self_startup [of E] by (simp add: keeps_self_def)
next
  case (looped loop)
  let ?h = "handle loop is_KeyboardInterrupt (\<lambda>_. do_method E console_view shutting_down)"
  have 1: "self (post loop) = self s"
    using keep_alive_self [OF looped(2)] keeps_self_startup [of E] by (simp add: keeps_self_def)
  have 2: "self (post ?h) = self s"
    using handle_self [of "\<lambda>_. do_method E console_view shutting_down" loop] 1
    by (simp add: keeps_self_do_method)
  have "self (post (try_finally ?h (cleanup E))) = self s"
  proof (cases "res ?h = Killed")
    case True
    then show ?thesis using 2 by (simp add: try_finally_Killed)
  next
    case False
    then show ?thesis
      using 2 keeps_self_cleanup [of E] by (simp add: try_finally_runs(2) keeps_self_def)
  qed
  with looped(3) show ?thesis by simp
qed

lemma start_runs_cleanup:
  assumes "start E s = Some out" and "res (startup E s) = Return ()" and "res out \<noteq> Killed"
  shows "\<exists>pre s'. evs out = pre @ evs (cleanup E s') \<and> self s' = self s"
  using assms(1)
proof (cases rule: start_cases)
  case aborted
  with assms(2) show ?thesis by simp
next
  case (looped loop)
  let ?h = "handle loop is_KeyboardInterrupt (\<lambda>_. do_method E console_view shutting_down)"
  have 1: "self (post loop) = self s"
    using keep_alive_self [OF looped(2)] keeps_self_startup [of E] by (simp add: keeps_self_def)
  have 2: "self (post ?h) = self s"
    using handle_self [of "\<lambda>_. do_method E console_view shutting_down" loop] 1
    by (simp add: keeps_self_do_method)
  have nk: "res ?h \<noteq> Killed"
  proof
    assume "res ?h = Killed"
    then have "try_finally ?h (cleanup E) = ?h" by (rule try_finally_Killed)
    with looped(3) \<open>res ?h = Killed\<close> have "res out = Killed" by simp
    with assms(3) show False by simp
  qed
  from looped(3) try_finally_runs(1) [OF nk, of "cleanup E"]
  have "evs out = (evs (startup E s) @ evs ?h) @ evs (cleanup E (post ?h))" by simp
  with 2 show ?thesis by blast
qed

lemma start_returns_after_loop:
  assumes "start E s = Some out" and "res out = Return ()"
  shows "res (startup E s) = Return ()"
  using assms(1)
proof (cases rule: start_cases)
  case aborted
  with assms(2) show ?thesis by simp
next
  case (looped loop)
  then show ?thesis by simp
qed

lemma cleanup_banner:
  "hasattr console_view s \<Longrightarrow> \<exists>r t. evs (cleanup E s) = Call banner r # t"
  by (simp add: cleanup_def evs_seq evs_do_method banner_def)

lemma start_sleeps:
  assumes "start E s = Some out" and "res (startup E s) = Return ()"
  shows "Sleep \<in> set (evs out)"
  using assms(1)
proof (cases rule: start_cases)
  case aborted
  with assms(2) show ?thesis by simp
next
  case (looped loop)
  let ?h = "handle loop is_KeyboardInterrupt (\<lambda>_. do_method E console_view shutting_down)"
  from keep_alive_sleeps [OF looped(2)] have "Sleep \<in> set (evs loop)" by auto
  moreover from evs_handle_prefix [of loop] obtain t where "evs ?h = evs loop @ t" by blast
  ultimately have h: "Sleep \<in> set (evs ?h)" by simp
  have "Sleep \<in> set (evs (try_finally ?h (cleanup E)))"
  proof (cases "res ?h = Killed")
    case True
    with h show ?thesis by (simp add: try_finally_Killed)
  next
    case False
    with h show ?thesis by (simp add: try_finally_runs(1))
  qed
  with looped(3) show ?thesis by simp
qed

lemma signal_handler_simps:
  "evs (signal_handler E s) =
     Print (CHR 0x0A # ''Received interrupt signal. Shutting down...'') # evs (cleanup E s)"
  "res (signal_handler E s) \<noteq> Return ()"
  "res (cleanup E s) = Return () \<Longrightarrow> res (signal_handler E s) = Raise (SystemExit 0)"
  by (simp_all add: signal_handler_def evs_seq res_seq post_seq sys_exit_def
        split: result.splits)

lemma quiet_dep_do_method:
  "(\<And>s r. \<not> P (Call (c s) r)) \<Longrightarrow> quiet P (\<lambda>s. do_method E a (c s) s)"
  by (simp add: quiet_def evs_do_method)

lemma within_startup: "within is_viz_start (startup E) (start_visualization E)"
  unfolding startup_def
  apply (rule within_seq_left, rule quiet_dep_do_method, simp, rule keeps_self_dep_do_method)
  apply (rule within_seq_left, rule quiet_dep_do_method, simp, rule keeps_self_dep_do_method)
  apply (rule within_seq_left, rule quiet_do_method, simp, rule keeps_self_do_method)
  apply (rule within_seq_left, rule quiet_do_method, simp, rule keeps_self_do_method)
  apply (rule within_seq_right, rule within_refl, rule quiet_do_method, simp)
  done

lemma start_visualization_disabled:
  "\<not> enable_viz (self s) \<Longrightarrow> evs (start_visualization E s) = []"
  by (simp add: start_visualization_def if_then_def)

lemma viz_start_only_if_enabled:
  assumes "Call Viz_start r \<in> set (evs (startup E s))"
  shows "enable_viz (self s)"
proof (rule ccontr)
  assume off: "\<not> enable_viz (self s)"
  have "is_viz_start (Call Viz_start r)" by simp
  with assms have "\<exists>ev \<in> set (evs (startup E s)). is_viz_start ev" by blast
  then have ne: "filter is_viz_start (evs (startup E s)) \<noteq> []"
    by (simp add: filter_empty_conv)
  with within_startup [of E] obtain s' where "self s' = self s"
    and "filter is_viz_start (evs (startup E s)) =
         filter is_viz_start (evs (start_visualization E s'))"
    unfolding within_def by blast
  with off ne show False by (simp add: start_visualization_disabled)
qed

lemma do_method_returns:
  "hasattr a s \<Longrightarrow> returned (fst (invoke E c (world s))) \<Longrightarrow> res (do_method E a c s) = Return ()"
  by (cases "fst (invoke E c (world s))") (simp_all add: res_do_method)

lemma is_viz_start_iff: "is_viz_start (Call c r) = (c = Viz_start)"
  by (cases c) simp_all

lemma no_viz_start_do_method:
  "c \<noteq> Viz_start \<Longrightarrow> filter is_viz_start (evs (do_method E a c s)) = []"
  by (simp add: evs_do_method is_viz_start_iff)

lemma self_do_method: "self (post (do_method E a c s)) = self s"
  using keeps_self_do_method [of E a c] unfolding keeps_self_def by blast

lemma self_start_visualization: "self (post (start_visualization E s)) = self s"
  using keeps_self_start_visualization [of E] unfolding keeps_self_def by blast

lemma chain_shape:
  fixes m1 :: "('w, unit) prog" and m5 :: "('w, unit) prog" and m6 :: "('w, unit) prog"
  assumes "res (m1 s) = Return ()"
    and "res (m2 (post (m1 s))) = Return ()"
    and "res (m3 (post (m2 (post (m1 s))))) = Return ()"
    and "res (m4 (post (m3 (post (m2 (post (m1 s))))))) = Return ()"
  shows "evs (seq m1 (seq m2 (seq m3 (seq m4 (seq m5 m6)))) s) =
      (evs (m1 s) @ evs (m2 (post (m1 s))) @ evs (m3 (post (m2 (post (m1 s))))) @
       evs (m4 (post (m3 (post (m2 (post (m1 s)))))))) @
      evs (m5 (post (m4 (post (m3 (post (m2 (post (m1 s))))))))) @
      (case res (m5 (post (m4 (post (m3 (post (m2 (post (m1 s))))))))) of
         Return v \<Rightarrow> evs (m6 (post (m5 (post (m4 (post (m3 (post (m2 (post (m1 s)))))))))))
       | Raise e \<Rightarrow> [] | Killed \<Rightarrow> [])"
    and "res (m5 (post (m4 (post (m3 (post (m2 (post (m1 s))))))))) = Return () \<Longrightarrow>
         res (m6 (post (m5 (post (m4 (post (m3 (post (m2 (post (m1 s))))))))))) = Return () \<Longrightarrow>
         res (seq m1 (seq m2 (seq m3 (seq m4 (seq m5 m6)))) s) = Return ()"
  using assms by (simp_all add: seq_Return evs_seq)

lemma startup_runs:
  assumes c: "console_returns E"
    and l: "\<forall>w. returned (fst (invoke E Cmd_start_listener w))"
    and n: "\<forall>w. returned (fst (invoke E Ws_connect w))"
    and a: "hasattr console_view s" "hasattr cmd_controller s" "hasattr ws_controller s"
  shows "\<exists>s' pre suf. self s' = self s \<and>
           evs (startup E s) = pre @ evs (start_visualization E s') @ suf \<and>
           filter is_viz_start pre = [] \<and> filter is_viz_start suf = [] \<and>
           (res (start_visualization E s') = Return () \<longrightarrow> res (startup E s) = Return ())"
proof -
  let ?m1 = "\<lambda>s. do_method E console_view (Console_print_info
                 (''Starting Cryptocurrency Market Monitor with database: '' @ db_name (self s))
                 True) s"
  let ?m2 = "\<lambda>s. do_method E console_view (Console_print_info
                 (''Tracking symbols: '' @ join '', '' (symbols (self s))) True) s"
  let ?m3 = "do_method E cmd_controller Cmd_start_listener"
  let ?m4 = "do_method E ws_controller Ws_connect"
  let ?m6 = "do_method E console_view (Console_print_info
            (''Type '' @ [CHR 0x27] @ ''help'' @ [CHR 0x27]
             @ '' for available commands, '' @ [CHR 0x27] @ ''status'' @ [CHR 0x27]
             @ '' for connection info, or '' @ [CHR 0x27] @ ''reconnect'' @ [CHR 0x27]
             @ '' to reset connection.'') True)"
  let ?s1 = "post (?m1 s)"
  let ?s2 = "post (?m2 ?s1)"
  let ?s3 = "post (?m3 ?s2)"
  let ?s4 = "post (?m4 ?s3)"
  let ?s5 = "post (start_visualization E ?s4)"
  have k1: "self ?s1 = self s" by (rule self_do_method)
  have k2: "self ?s2 = self s" by (rule trans [OF self_do_method k1])
  have k3: "self ?s3 = self s" by (rule trans [OF self_do_method k2])
  have k4: "self ?s4 = self s" by (rule trans [OF self_do_method k3])
  have k5: "self ?s5 = self s" by (rule trans [OF self_start_visualization k4])
  have h1: "hasattr x ?s1 = hasattr x s" for x unfolding hasattr_def k1 ..
  have h2: "hasattr x ?s2 = hasattr x s" for x unfolding hasattr_def k2 ..
  have h3: "hasattr x ?s3 = hasattr x s" for x unfolding hasattr_def k3 ..
  have h5: "hasattr x ?s5 = hasattr x s" for x unfolding hasattr_def k5 ..
  have r1: "res (?m1 s) = Return ()" by (rule console_step(1) [OF c _ a(1)]) simp
  have r2: "res (?m2 ?s1) = Return ()"
    by (rule console_step(1) [OF c]) (simp, simp only: h1 a)
  have r3: "res (?m3 ?s2) = Return ()"
    by (rule do_method_returns) (simp only: h2 a, simp only: l)
  have r4: "res (?m4 ?s3) = Return ()"
    by (rule do_method_returns) (simp only: h3 a, simp only: n)
  have r6: "res (?m6 ?s5) = Return ()"
    by (rule console_step(1) [OF c]) (simp, simp only: h5 a)
  note e = chain_shape(1) [of ?m1 s ?m2 ?m3 ?m4 "start_visualization E" ?m6,
      OF r1 r2 r3 r4, folded startup_def]
  have r: "res (startup E s) = Return ()" if "res (start_visualization E ?s4) = Return ()"
    unfolding startup_def
    by (rule chain_shape(2) [of ?m1 s ?m2 ?m3 ?m4 "start_visualization E" ?m6,
          OF r1 r2 r3 r4 that r6])
  have p: "filter is_viz_start
             (evs (?m1 s) @ evs (?m2 ?s1) @ evs (?m3 ?s2) @ evs (?m4 ?s3)) = []"
    unfolding filter_append
    by (simp only: no_viz_start_do_method call.distinct not_False_eq_True append_Nil)
  have q: "filter is_viz_start
             (case res (start_visualization E ?s4) of Return v \<Rightarrow> evs (?m6 ?s5)
              | Raise e \<Rightarrow> [] | Killed \<Rightarrow> []) = []"
    by (cases "res (start_visualization E ?s4)")
       (simp_all only: result.case no_viz_start_do_method call.distinct not_False_eq_True
          filter.simps)
  from e r k4 p q show ?thesis by blast
qed

lemma start_visualization_enabled:
  assumes c: "console_returns E" and a: "hasattr console_view s" "hasattr visualizer s"
    and v: "enable_viz (self s)"
  shows "\<exists>w. filter is_viz_start (evs (start_visualization E s))
                 = [Call Viz_start (fst (invoke E Viz_start w))] \<and>
             (\<forall>x. fst (invoke E Viz_start w) = Return x \<longrightarrow> \<not> truthy x \<longrightarrow>
                (\<exists>r. Call viz_failed r \<in> set (evs (start_visualization E s))) \<and>
                res (start_visualization E s) = Return ())"
proof -
  let ?p = "do_method E console_view (Console_print_info ''Starting 3D visualization...'' False)"
  let ?s1 = "post (?p s)"
  let ?w = "world ?s1"
  have k: "self ?s1 = self s"
    using keeps_self_do_method [of E console_view] by (simp add: keeps_self_def)
  then have h: "hasattr x ?s1 = hasattr x s" for x by (simp add: hasattr_def)
  have r1: "res (?p s) = Return ()" by (rule console_step(1) [OF c _ a(1)]) simp
  have 1: "filter is_viz_start (evs (start_visualization E s))
             = [Call Viz_start (fst (invoke E Viz_start ?w))]"
    using v r1 a h
    by (cases "fst (invoke E Viz_start ?w)")
       (simp_all add: start_visualization_def if_then_def seq_Return evs_bind call_method_simps
          evs_do_method)
  have 2: "(\<exists>r. Call viz_failed r \<in> set (evs (start_visualization E s))) \<and>
           res (start_visualization E s) = Return ()"
    if x: "fst (invoke E Viz_start ?w) = Return x" "\<not> truthy x" for x
  proof -
    let ?s2 = "post (call_method E visualizer Viz_start ?s1)"
    have h2: "hasattr console_view ?s2"
      using keeps_self_call_method [of E visualizer Viz_start] h a
      by (simp add: keeps_self_def hasattr_def)
    have f: "is_console viz_failed" by (simp add: viz_failed_def)
    note r3 = console_step(1) [OF c f h2]
    have "Call viz_failed (fst (invoke E viz_failed (world ?s2)))
            \<in> set (evs (start_visualization E s))"
      using v r1 a h h2 x
      by (simp add: start_visualization_def if_then_def seq_Return evs_bind call_method_simps
            evs_do_method viz_failed_def)
    moreover have "res (start_visualization E s) = Return ()"
      using v r1 a h x r3
      by (simp add: start_visualization_def if_then_def seq_Return res_bind call_method_simps
            viz_failed_def)
    ultimately show ?thesis by blast
  qed
  from 1 2 show ?thesis by blast
qed

lemma startup_shape:
  assumes c: "startup_calls_return E"
    and a: "hasattr console_view s" "hasattr cmd_controller s" "hasattr ws_controller s"
           "hasattr visualizer s"
    and v: "enable_viz (self s)"
  shows "\<exists>r0. filter is_viz_start (evs (startup E s)) = [Call Viz_start r0] \<and>
           (\<forall>x. r0 = Return x \<longrightarrow> \<not> truthy x \<longrightarrow>
              (\<exists>r. Call viz_failed r \<in> set (evs (startup E s))) \<and>
              res (startup E s) = Return ())"
proof -
  from c have cr: "console_returns E"
    and l: "\<forall>w. returned (fst (invoke E Cmd_start_listener w))"
    and n: "\<forall>w. returned (fst (invoke E Ws_connect w))"
    by (simp_all add: startup_calls_return_def)
  from startup_runs [OF cr l n a(1-3)] obtain s' pre suf
    where k: "self s' = self s"
      and e: "evs (startup E s) = pre @ evs (start_visualization E s') @ suf"
      and p: "filter is_viz_start pre = []" and q: "filter is_viz_start suf = []"
      and r: "res (start_visualization E s') = Return () \<longrightarrow> res (startup E s) = Return ()"
    by blast
  from k a v have a': "hasattr console_view s'" "hasattr visualizer s'" "enable_viz (self s')"
    by (simp_all add: hasattr_def)
  from start_visualization_enabled [OF cr a'] obtain w
    where f: "filter is_viz_start (evs (start_visualization E s'))
                = [Call Viz_start (fst (invoke E Viz_start w))]"
      and g: "\<forall>x. fst (invoke E Viz_start w) = Return x \<longrightarrow> \<not> truthy x \<longrightarrow>
                (\<exists>r. Call viz_failed r \<in> set (evs (start_visualization E s'))) \<and>
                res (start_visualization E s') = Return ()"
    by blast
  have 1: "filter is_viz_start (evs (startup E s)) = [Call Viz_start (fst (invoke E Viz_start w))]"
    unfolding e filter_append p q f by simp
  have 2: "(\<exists>r. Call viz_failed r \<in> set (evs (startup E s))) \<and> res (startup E s) = Return ()"
    if "fst (invoke E Viz_start w) = Return x" "\<not> truthy x" for x
  proof -
    from g that obtain r' where "Call viz_failed r' \<in> set (evs (start_visualization E s'))"
      and "res (start_visualization E s') = Return ()" by blast
    with e r show ?thesis by auto
  qed
  from 1 2 show ?thesis by blast
qed

lemma cleanup_with_console_view:
  assumes "hasattr console_view s" and "console_returns E"
  shows "(\<forall>e. res (cleanup E s) = Raise e \<longrightarrow> \<not> is_Exception e) \<and>
         (\<forall>a. res (cleanup E s) \<noteq> Raise (AttributeError a)) \<and>
         (\<forall>c r. Call c r \<in> set (evs (cleanup E s)) \<longrightarrow> hasattr (receiver c) s) \<and>
         (\<forall>b. Running b \<in> set (evs (cleanup E s)) \<longrightarrow> hasattr visualizer s) \<and>
         (failures_are_Exceptions E \<longrightarrow>
            res (cleanup E s) = Return () \<and>
            (Cmd_stop \<in> set (teardown_calls (evs (cleanup E s))) \<longleftrightarrow> hasattr cmd_controller s) \<and>
            (Ws_close \<in> set (teardown_calls (evs (cleanup E s))) \<longleftrightarrow> hasattr ws_controller s) \<and>
            (Db_flush \<in> set (teardown_calls (evs (cleanup E s))) \<longleftrightarrow> hasattr db_manager s) \<and>
            ((\<exists>b. Running b \<in> set (evs (cleanup E s))) \<longleftrightarrow> hasattr visualizer s))"
proof -
  have esc: "\<forall>e. res (cleanup E s) = Raise e \<longrightarrow> \<not> is_Exception e"
    using contained_cleanup [OF assms(2)] assms(1) by (simp add: contained_def)
  then have noattr: "\<forall>a. res (cleanup E s) \<noteq> Raise (AttributeError a)"
    by force
  have calls: "\<forall>c r. Call c r \<in> set (evs (cleanup E s)) \<longrightarrow> hasattr (receiver c) s"
    using confined_call [OF confined_cleanup] by blast
  have run: "\<forall>b. Running b \<in> set (evs (cleanup E s)) \<longrightarrow> hasattr visualizer s"
    using confined_running [OF confined_cleanup] by blast
  have "res (cleanup E s) = Return () \<and>
        (Cmd_stop \<in> set (teardown_calls (evs (cleanup E s))) \<longleftrightarrow> hasattr cmd_controller s) \<and>
        (Ws_close \<in> set (teardown_calls (evs (cleanup E s))) \<longleftrightarrow> hasattr ws_controller s) \<and>
        (Db_flush \<in> set (teardown_calls (evs (cleanup E s))) \<longleftrightarrow> hasattr db_manager s) \<and>
        ((\<exists>b. Running b \<in> set (evs (cleanup E s))) \<longleftrightarrow> hasattr visualizer s)"
    if f: "failures_are_Exceptions E"
    using cleanup_summary(1,4) [OF assms(2) f assms(1)]
          cleanup_attempts(1-3) [OF assms(2) f assms(1)] run
    by blast
  with esc noattr calls run show ?thesis by blast
qed

lemma cleanup_with_console_view_example:
  "hasattr console_view partly_built
   \<and> console_returns (scripted all_fine True 0 Slept)
   \<and> failures_are_Exceptions (scripted all_fine True 0 Slept)
   \<and> \<not> hasattr cmd_controller partly_built \<and> \<not> hasattr ws_controller partly_built
   \<and> \<not> hasattr visualizer partly_built \<and> hasattr db_manager partly_built
   \<and> res (cleanup (scripted all_fine True 0 Slept) partly_built) = Return ()
   \<and> Cmd_stop \<notin> set (teardown_calls (evs (cleanup (scripted all_fine True 0 Slept) partly_built)))
   \<and> Ws_close \<notin> set (teardown_calls (evs (cleanup (scripted all_fine True 0 Slept) partly_built)))
   \<and> Db_flush \<in> set (teardown_calls (evs (cleanup (scripted all_fine True 0 Slept) partly_built)))"
proof -
  have 0: "hasattr console_view partly_built" "\<not> hasattr cmd_controller partly_built"
    "\<not> hasattr ws_controller partly_built" "\<not> hasattr visualizer partly_built"
    "hasattr db_manager partly_built"
    by (simp_all add: hasattr_def partly_built_def)
  have 1: "console_returns (scripted all_fine True 0 Slept)"
    by (simp add: console_returns_scripted all_fine_returned)
  have 2: "failures_are_Exceptions (scripted all_fine True 0 Slept)"
    by (simp add: failures_scripted all_fine_def)
  from cleanup_with_console_view [OF 0(1) 1] 0 1 2 show ?thesis by simp
qed

section \<open>The claims\<close>

text \<open>
  Claim C8. In the database step of \<open>cleanup\<close>, \<open>db_manager.close()\<close> is called only when
  \<open>db_manager.flush()\<close> has returned: the two calls and the success report sit in one
  \<open>try\<close> block. Among the calls \<open>flush\<close>, \<open>close\<close> and \<open>print_success\<close> of one run of
  \<open>cleanup\<close>, a \<open>close\<close> comes only directly after a \<open>flush\<close> that returned and the report
  only after a \<open>close\<close> that returned; when the \<open>flush\<close> did not return, the run has neither a
  \<open>close\<close> nor the success report.
\<close>

theorem cleanup_close_needs_flush:
  "flush_gates_close (filter is_db_event (evs (cleanup E s))) \<and>
   (\<forall>r. Call Db_flush r \<in> set (evs (cleanup E s)) \<and> \<not> returned r \<longrightarrow>
        (\<forall>ev \<in> set (evs (cleanup E s)). \<not> is_close ev \<and> \<not> is_success_report ev))"
  using close_follows_flush [OF cleanup_db_shape] cleanup_db_shape by blast

theorem cleanup_close_needs_flush_witness:
  "Call Db_flush (Raise (Exception ''disk full''))
     \<in> set (evs (cleanup (scripted (failing Db_flush (Exception ''disk full'')) True 0 Slept) built))
   \<and> \<not> returned (Raise (Exception ''disk full'') :: val result)
   \<and> \<not> (\<exists>ev \<in> set (evs (cleanup (scripted (failing Db_flush (Exception ''disk full'')) True 0
                                        Slept) built)).
           is_close ev \<or> is_success_report ev)"
proof -
  have h: "Call Db_flush (Raise (Exception ''disk full''))
     \<in> set (evs (cleanup (scripted (failing Db_flush (Exception ''disk full'')) True 0 Slept) built))"
    by (simp add: stage_defs run_simps sample_defs)
  have b: "\<not> returned (Raise (Exception ''disk full'') :: val result)" by simp
  from cleanup_close_needs_flush
         [of "scripted (failing Db_flush (Exception ''disk full'')) True 0 Slept" built] h b
  show ?thesis by blast
qed

text \<open>
  Claim C10. During \<open>cleanup\<close>, \<open>visualizer.stop()\<close> is called if and only if the flag
  \<open>visualizer.running\<close> is read as true at that point: of the reads of the flag and the
  calls of \<open>stop\<close> in one run there is either nothing, or one read of false, or one read of
  true directly followed by the call; and the step itself calls \<open>stop\<close> exactly when the
  attribute is there and the flag is true in the state in which the step starts.
\<close>

theorem cleanup_stops_running_visualizer:
  "stop_iff_running (filter is_viz_event (evs (cleanup E s))) \<and>
   ((\<exists>r. Call Viz_stop r \<in> set (evs (cleanup E s))) \<longleftrightarrow> Running True \<in> set (evs (cleanup E s))) \<and>
   ((\<exists>r. Call Viz_stop r \<in> set (evs (stop_visualization E s))) \<longleftrightarrow>
      (hasattr visualizer s \<and> viz_running E (world s)))"
  using cleanup_viz_shape viz_shape_lemma [OF cleanup_viz_shape] viz_stage_iff by blast

theorem cleanup_stops_running_visualizer_witness:
  "(\<exists>r. Call Viz_stop r \<in> set (evs (cleanup (scripted all_fine True 0 Slept) built)))
   \<and> Running True \<in> set (evs (cleanup (scripted all_fine True 0 Slept) built))
   \<and> \<not> (\<exists>r. Call Viz_stop r \<in> set (evs (cleanup (scripted all_fine False 0 Slept) built)))"
proof -
  have 1: "Running True \<in> set (evs (cleanup (scripted all_fine True 0 Slept) built))"
    by (simp add: stage_defs run_simps sample_defs)
  have 2: "Running True \<notin> set (evs (cleanup (scripted all_fine False 0 Slept) built))"
    by (simp add: stage_defs run_simps sample_defs)
  from cleanup_stops_running_visualizer [of "scripted all_fine True 0 Slept" built]
       cleanup_stops_running_visualizer [of "scripted all_fine False 0 Slept" built] 1 2
  show ?thesis by blast
qed

text \<open>
  Claim C2. In every run of \<open>cleanup\<close> the calls that tear a component down come in one
  order: \<open>cmd_controller.stop\<close>, \<open>ws_controller.close\<close>, \<open>visualizer.stop\<close>,
  \<open>db_manager.flush\<close>, \<open>db_manager.close\<close>. Whatever the collaborators do, the calls made
  are a subsequence of this list, so none is repeated, none is out of order and no producer
  is stopped after the database was flushed or closed. When the application is fully
  built, every call returns and the visualizer is running, the calls are exactly this list.
\<close>

theorem cleanup_order:
  "subseq (teardown_calls (evs (cleanup E s))) [Cmd_stop, Ws_close, Viz_stop, Db_flush, Db_close]
   \<and> (console_returns E \<and> (\<forall>c w. is_teardown c \<longrightarrow> returned (fst (invoke E c w))) \<and>
      (\<forall>w. viz_running E w) \<and>
      hasattr console_view s \<and> hasattr cmd_controller s \<and> hasattr ws_controller s \<and>
      hasattr visualizer s \<and> hasattr db_manager s
      \<longrightarrow> teardown_calls (evs (cleanup E s)) = [Cmd_stop, Ws_close, Viz_stop, Db_flush, Db_close])"
  using emits_cleanup_subseq cleanup_nominal by blast

theorem cleanup_order_witness:
  "console_returns (scripted all_fine True 0 Slept)
   \<and> (\<forall>c w. is_teardown c \<longrightarrow> returned (fst (invoke (scripted all_fine True 0 Slept) c w))) = True
   \<and> (\<forall>w. viz_running (scripted all_fine True 0 Slept) w) = True
   \<and> hasattr console_view built \<and> hasattr cmd_controller built \<and> hasattr ws_controller built
   \<and> hasattr visualizer built \<and> hasattr db_manager built
   \<and> teardown_calls (evs (cleanup (scripted all_fine True 0 Slept) built))
       = [Cmd_stop, Ws_close, Viz_stop, Db_flush, Db_close]"
proof -
  have 1: "console_returns (scripted all_fine True 0 Slept)"
    by (simp add: console_returns_scripted all_fine_returned)
  have 2: "\<forall>c w. is_teardown c \<longrightarrow> returned (fst (invoke (scripted all_fine True 0 Slept) c w))"
    by (simp add: scripted_def all_fine_returned)
  have 3: "\<forall>w. viz_running (scripted all_fine True 0 Slept) w"
    by (simp add: scripted_def)
  from cleanup_order [of "scripted all_fine True 0 Slept" built] 1 2 3 hasattr_built
  show ?thesis by simp
qed

text \<open>
  Claim C3. When a call of a teardown step (\<open>cmd_controller.stop\<close>, \<open>ws_controller.close\<close>,
  \<open>visualizer.stop\<close>, \<open>db_manager.flush\<close> or \<open>close\<close>) raises an error, the error is
  reported and the later steps are still attempted. For collaborators whose console calls
  return and whose teardown calls return or raise an \<open>Exception\<close>, on any application that
  has its console view: \<open>cleanup\<close> returns, every teardown call that raised is directly
  followed by the printed report of its error, and the step of every assigned component is
  attempted (the visualizer's flag is read, and \<open>stop\<close> is called when it is read as true).
\<close>

theorem cleanup_best_effort:
  assumes "console_returns E" and "failures_are_Exceptions E" and "hasattr console_view s"
  shows "res (cleanup E s) = Return () \<and> reported (evs (cleanup E s)) \<and>
         (hasattr cmd_controller s \<longrightarrow> Cmd_stop \<in> set (teardown_calls (evs (cleanup E s)))) \<and>
         (hasattr ws_controller s \<longrightarrow> Ws_close \<in> set (teardown_calls (evs (cleanup E s)))) \<and>
         (hasattr visualizer s \<longrightarrow> (\<exists>b. Running b \<in> set (evs (cleanup E s)))) \<and>
         (Running True \<in> set (evs (cleanup E s)) \<longrightarrow>
            Viz_stop \<in> set (teardown_calls (evs (cleanup E s)))) \<and>
         (hasattr db_manager s \<longrightarrow> Db_flush \<in> set (teardown_calls (evs (cleanup E s))))"
proof -
  have "Viz_stop \<in> set (teardown_calls (evs (cleanup E s)))"
    if "Running True \<in> set (evs (cleanup E s))"
  proof -
    from that viz_shape_lemma [OF cleanup_viz_shape, of E s]
    obtain r where "Call Viz_stop r \<in> set (evs (cleanup E s))" by blast
    then show ?thesis by (rule in_teardown_calls) simp
  qed
  with cleanup_summary(1,2,4) [OF assms] cleanup_attempts(1-3) [OF assms]
  show ?thesis by blast
qed

theorem cleanup_best_effort_witness:
  "console_returns (scripted (failing Ws_close (Exception ''socket gone'')) True 0 Slept)
   \<and> failures_are_Exceptions (scripted (failing Ws_close (Exception ''socket gone'')) True 0 Slept)
   \<and> hasattr console_view built
   \<and> Call Ws_close (Raise (Exception ''socket gone''))
       \<in> set (evs (cleanup (scripted (failing Ws_close (Exception ''socket gone'')) True 0 Slept)
                 built))
   \<and> res (cleanup (scripted (failing Ws_close (Exception ''socket gone'')) True 0 Slept) built)
       = Return ()
   \<and> reported (evs (cleanup (scripted (failing Ws_close (Exception ''socket gone'')) True 0 Slept)
                 built))
   \<and> Db_flush \<in> set (teardown_calls
       (evs (cleanup (scripted (failing Ws_close (Exception ''socket gone'')) True 0 Slept) built)))"
proof -
  let ?E = "scripted (failing Ws_close (Exception ''socket gone'')) True 0 Slept"
  have 1: "console_returns ?E"
    by (auto simp: console_returns_scripted intro: failing_returned)
  have 2: "failures_are_Exceptions ?E"
    by (simp add: failures_scripted failing_absorbed)
  have 3: "Call Ws_close (Raise (Exception ''socket gone'')) \<in> set (evs (cleanup ?E built))"
    by (simp add: stage_defs run_simps sample_defs)
  from cleanup_best_effort [OF 1 2 hasattr_built(1)] 1 2 3 hasattr_built
  show ?thesis by simp
qed

text \<open>
  Claim C1. The spec has \<open>cleanup\<close> run its teardown once per process, a second call
  returning at once. The method has no such guard. What holds: every call of \<open>cleanup\<close>
  runs the teardown again. On an application with its console view, command controller,
  WebSocket controller and database manager, with collaborators whose console calls
  return and whose teardown calls return or raise an \<open>Exception\<close>, \<open>n\<close> calls of \<open>cleanup\<close>
  one after the other all return and call \<open>cmd_controller.stop\<close>, \<open>ws_controller.close\<close>
  and \<open>db_manager.flush\<close> \<open>n\<close> times each.
\<close>

theorem cleanup_runs_every_time:
  assumes "console_returns E" and "failures_are_Exceptions E"
    and "hasattr console_view s" and "hasattr cmd_controller s" and "hasattr ws_controller s"
    and "hasattr db_manager s"
  shows "res (repeat n (cleanup E) s) = Return () \<and>
         count_list (teardown_calls (evs (repeat n (cleanup E) s))) Cmd_stop = n \<and>
         count_list (teardown_calls (evs (repeat n (cleanup E) s))) Ws_close = n \<and>
         count_list (teardown_calls (evs (repeat n (cleanup E) s))) Db_flush = n"
  using assms by (rule repeat_cleanup)

theorem cleanup_runs_every_time_witness:
  "console_returns (scripted all_fine True 0 Slept)
   \<and> failures_are_Exceptions (scripted all_fine True 0 Slept)
   \<and> hasattr console_view built \<and> hasattr cmd_controller built \<and> hasattr ws_controller built
   \<and> hasattr db_manager built
   \<and> res (repeat 3 (cleanup (scripted all_fine True 0 Slept)) built) = Return ()
   \<and> count_list (teardown_calls (evs (repeat 3 (cleanup (scripted all_fine True 0 Slept)) built)))
        Db_flush = 3"
proof -
  have 1: "console_returns (scripted all_fine True 0 Slept)"
    by (simp add: console_returns_scripted all_fine_returned)
  have 2: "failures_are_Exceptions (scripted all_fine True 0 Slept)"
    by (simp add: failures_scripted all_fine_def)
  from cleanup_runs_every_time [OF 1 2 hasattr_built(1,2,3,5), of 3] 1 2 hasattr_built
  show ?thesis by simp
qed

text \<open>
  The claim as the spec has it fails. A second call of \<open>cleanup\<close> on the application makes
  all five teardown calls again; and in a whole process in which \<open>SIGINT\<close> arrives during
  the first sleep, the teardown runs three times: in the signal handler, in the \<open>finally\<close>
  block of \<open>start\<close> and in the \<open>atexit\<close> function.
\<close>

theorem cleanup_once_counterexample:
  "teardown_calls
     (evs (cleanup (scripted all_fine True 0 Slept)
             (post (cleanup (scripted all_fine True 0 Slept) built))))
     = [Cmd_stop, Ws_close, Viz_stop, Db_flush, Db_close]
   \<and> map_option (teardown_calls \<circ> evs)
        (main (scripted all_fine True 0 (Signal SIGINT)) example_args 0)
     = Some [Cmd_stop, Ws_close, Viz_stop, Db_flush, Db_close,
             Cmd_stop, Ws_close, Viz_stop, Db_flush, Db_close,
             Cmd_stop, Ws_close, Viz_stop, Db_flush, Db_close]"
proof
  show "teardown_calls
     (evs (cleanup (scripted all_fine True 0 Slept)
             (post (cleanup (scripted all_fine True 0 Slept) built))))
     = [Cmd_stop, Ws_close, Viz_stop, Db_flush, Db_close]"
    by (simp add: stage_defs run_simps sample_defs)
  show "map_option (teardown_calls \<circ> evs)
        (main (scripted all_fine True 0 (Signal SIGINT)) example_args 0)
     = Some [Cmd_stop, Ws_close, Viz_stop, Db_flush, Db_close,
             Cmd_stop, Ws_close, Viz_stop, Db_flush, Db_close,
             Cmd_stop, Ws_close, Viz_stop, Db_flush, Db_close]"
    by (simp add: teardown_calls_def comb_defs prog_defs example_defs keep_alive.simps)
qed

text \<open>
  Claim C9. \<open>cleanup\<close> is to be safe on a partially constructed application, and each of
  its four teardown steps is guarded by \<open>hasattr\<close> for that. The first statement of
  \<open>cleanup\<close>, \<open>self.console_view.print_info("Cleaning up resources...")\<close>, has no such guard,
  and \<open>__init__\<close> assigns \<open>db_manager\<close> before \<open>console_view\<close>. On the application that
  \<open>__init__\<close> leaves behind when the constructor of \<open>ConsoleView\<close> raises, \<open>db_manager\<close> is
  assigned and \<open>console_view\<close> is not: \<open>cleanup\<close> raises \<open>AttributeError\<close> at once and makes no
  call, so the guarded database step is never reached.
\<close>

theorem cleanup_on_partly_built_raises:
  "self (post (init (scripted (failing (New_ConsoleView ''1.0'') (Exception ''boom'')) True 0 Slept)
                 example_args (fresh 0))) = self half_built
   \<and> hasattr db_manager half_built
   \<and> res (cleanup (scripted all_fine True 0 Slept) half_built) = Raise (AttributeError console_view)
   \<and> evs (cleanup (scripted all_fine True 0 Slept) half_built) = []"
  by (auto simp: comb_defs prog_defs example_defs half_built_def)

text \<open>
  Claim C4. \<open>__init__\<close> installs the same closure \<open>signal_handler\<close> for \<open>SIGINT\<close> and for
  \<open>SIGTERM\<close>. When one of the two signals is delivered, that handler prints its line, runs
  \<open>cleanup\<close> in full and never returns to the interrupted code: when \<open>cleanup\<close> returned it
  raises \<open>SystemExit(0)\<close>, which ends the process, and otherwise it ends the way \<open>cleanup\<close>
  ended. A signal that arrives while the keep-alive loop sleeps ends the loop with the
  handler's outcome.
\<close>

theorem signals_run_cleanup_and_exit:
  "(res (init E a s0) = Return () \<longrightarrow>
      sig_handlers (post (init E a s0)) SIGINT = signal_handler_closure \<and>
      sig_handlers (post (init E a s0)) SIGTERM = signal_handler_closure) \<and>
   (sig_handlers s sig = signal_handler_closure \<longrightarrow> deliver E sig s = signal_handler E s) \<and>
   evs (signal_handler E s) =
     Print (CHR 0x0A # ''Received interrupt signal. Shutting down...'') # evs (cleanup E s) \<and>
   res (signal_handler E s) \<noteq> Return () \<and>
   (res (cleanup E s) = Return () \<longrightarrow> res (signal_handler E s) = Raise (SystemExit 0)) \<and>
   (sleep E (world s) = (Signal sig, w) \<and> sig_handlers s sig = signal_handler_closure \<longrightarrow>
      keep_alive E s = Some (after [Sleep] (signal_handler E (s\<lparr>world := w\<rparr>))))"
  using init_returns(2,3) [of E a s0] signal_handler_simps [of E s] keep_alive_signal [of E s sig w]
  by (simp add: deliver_def)

theorem signals_run_cleanup_and_exit_witness:
  "res (init (scripted all_fine True 0 (Signal SIGTERM)) example_args (fresh 0)) = Return ()
   \<and> sig_handlers (post (init (scripted all_fine True 0 (Signal SIGTERM)) example_args (fresh 0)))
        SIGINT = signal_handler_closure
   \<and> sig_handlers (post (init (scripted all_fine True 0 (Signal SIGTERM)) example_args (fresh 0)))
        SIGTERM = signal_handler_closure
   \<and> sig_handlers built SIGTERM = signal_handler_closure
   \<and> sleep (scripted all_fine True 0 (Signal SIGTERM)) (world built) = (Signal SIGTERM, 1)
   \<and> res (cleanup (scripted all_fine True 0 (Signal SIGTERM)) built) = Return ()
   \<and> res (signal_handler (scripted all_fine True 0 (Signal SIGTERM)) built) = Raise (SystemExit 0)
   \<and> keep_alive (scripted all_fine True 0 (Signal SIGTERM)) built
       = Some (after [Sleep]
                (signal_handler (scripted all_fine True 0 (Signal SIGTERM)) (built\<lparr>world := 1\<rparr>)))"
proof -
  let ?E = "scripted all_fine True 0 (Signal SIGTERM)"
  have 1: "res (init ?E example_args (fresh 0)) = Return ()"
    by (simp add: comb_defs prog_defs example_defs)
  have 2: "sig_handlers built SIGTERM = signal_handler_closure" by (simp add: built_def)
  have 3: "sleep ?E (world built) = (Signal SIGTERM, 1)" by (simp add: scripted_def built_def)
  have 4: "res (cleanup ?E built) = Return ()"
    by (simp add: stage_defs run_simps sample_defs)
  from signals_run_cleanup_and_exit [of ?E example_args "fresh 0" built SIGTERM 1] 1 2 3 4
  show ?thesis by simp
qed

text \<open>
  Claim C6. The tracked symbols are the configured strings in upper case, for every list
  of configured strings: \<open>__init__\<close> sets \<open>self.symbols\<close> to the list of their images under
  \<open>str.upper\<close>, every \<open>TradeModel\<close>, \<open>OrderBookModel\<close> and \<open>VisualizationView\<close> it constructs
  is given that list, and when \<open>__init__\<close> returns all three were constructed with it and
  \<open>self.symbols\<close> is still that list. Afterwards \<open>cleanup\<close>, the signal handler and \<open>start\<close>
  leave the attributes of the object, the symbols among them, as they were. This is about
  the statements of \<open>CryptoMonitorApp\<close>: the list is a value here, so a collaborator that
  changed the list object it was given is not described.
\<close>

theorem symbols_fixed_at_startup:
  "symbols (self (post (init E a s))) = map (str_upper E) (arg_symbols a) \<and>
   (\<forall>x r. Call (New_TradeModel x) r \<in> set (evs (init E a s)) \<longrightarrow> x = map (str_upper E) (arg_symbols a)) \<and>
   (\<forall>x r. Call (New_OrderBookModel x) r \<in> set (evs (init E a s)) \<longrightarrow>
      x = map (str_upper E) (arg_symbols a)) \<and>
   (\<forall>x r. Call (New_VisualizationView x) r \<in> set (evs (init E a s)) \<longrightarrow>
      x = map (str_upper E) (arg_symbols a)) \<and>
   (res (init E a s) = Return () \<longrightarrow>
      (\<exists>r. Call (New_TradeModel (map (str_upper E) (arg_symbols a))) r \<in> set (evs (init E a s))) \<and>
      (\<exists>r. Call (New_OrderBookModel (map (str_upper E) (arg_symbols a))) r \<in> set (evs (init E a s))) \<and>
      (\<exists>r. Call (New_VisualizationView (map (str_upper E) (arg_symbols a))) r \<in> set (evs (init E a s)))) \<and>
   self (post (cleanup E s)) = self s \<and>
   self (post (signal_handler E s)) = self s \<and>
   (\<forall>out. start E s = Some out \<longrightarrow> self (post out) = self s)"
proof -
  let ?U = "map (str_upper E) (arg_symbols a)"
  from init_symbols(2) [of E a s]
  have p: "\<forall>ev \<in> set (evs (init E a s)). passes ?U ev" by (simp add: list_all_iff)
  have 1: "\<forall>x r. Call (New_TradeModel x) r \<in> set (evs (init E a s)) \<longrightarrow> x = ?U"
    using p by (force simp: passes_def)
  have 2: "\<forall>x r. Call (New_OrderBookModel x) r \<in> set (evs (init E a s)) \<longrightarrow> x = ?U"
    using p by (force simp: passes_def)
  have 3: "\<forall>x r. Call (New_VisualizationView x) r \<in> set (evs (init E a s)) \<longrightarrow> x = ?U"
    using p by (force simp: passes_def)
  have 4: "(\<exists>r. Call (New_TradeModel ?U) r \<in> set (evs (init E a s))) \<and>
      (\<exists>r. Call (New_OrderBookModel ?U) r \<in> set (evs (init E a s))) \<and>
      (\<exists>r. Call (New_VisualizationView ?U) r \<in> set (evs (init E a s)))"
    if "res (init E a s) = Return ()"
    using init_returns(1) [OF that] by auto
  have 5: "self (post (cleanup E s)) = self s"
    using keeps_self_cleanup [of E] by (simp add: keeps_self_def)
  have 6: "self (post (signal_handler E s)) = self s"
    using keeps_self_signal_handler [of E] by (simp add: keeps_self_def)
  from init_symbols(1) [of E a s] 1 2 3 4 5 6 start_self [of E s] show ?thesis by blast
qed

theorem symbols_fixed_at_startup_witness:
  "res (init (scripted all_fine True 0 Slept) example_args (fresh 0)) = Return ()
   \<and> arg_symbols example_args = [''btcusdt'', ''ETHusdt'']
   \<and> symbols (self (post (init (scripted all_fine True 0 Slept) example_args (fresh 0))))
       = [''BTCUSDT'', ''ETHUSDT'']
   \<and> (\<exists>r. Call (New_TradeModel [''BTCUSDT'', ''ETHUSDT'']) r
            \<in> set (evs (init (scripted all_fine True 0 Slept) example_args (fresh 0))))
   \<and> (\<exists>r. Call (New_VisualizationView [''BTCUSDT'', ''ETHUSDT'']) r
            \<in> set (evs (init (scripted all_fine True 0 Slept) example_args (fresh 0))))"
proof -
  let ?E = "scripted all_fine True 0 Slept"
  have 1: "res (init ?E example_args (fresh 0)) = Return ()"
    by (simp add: comb_defs prog_defs example_defs)
  have 2: "map (str_upper ?E) (arg_symbols example_args) = [''BTCUSDT'', ''ETHUSDT'']"
    by (simp add: example_defs)
  from symbols_fixed_at_startup [of ?E example_args "fresh 0"] 1 2
  show ?thesis by (simp add: example_args_def)
qed

text \<open>
  Claim C5. The spec has every exit path of \<open>start\<close> run \<open>cleanup\<close>. The \<open>try\<close> block of
  \<open>start\<close> holds only the keep-alive loop; the start-up calls before it are outside. What
  holds: when the start-up calls returned, so that the loop was entered, every end of
  \<open>start\<close> short of the process being killed has \<open>cleanup\<close> as its last part (and, with a
  console view, the first call of \<open>cleanup\<close> is in the trace); and \<open>start\<close> never returns
  normally without it.
\<close>

theorem start_cleans_up_after_loop:
  assumes "start E s = Some out"
  shows "(res (startup E s) = Return () \<and> res out \<noteq> Killed \<longrightarrow>
            (\<exists>pre s'. evs out = pre @ evs (cleanup E s') \<and> self s' = self s) \<and>
            (hasattr console_view s \<longrightarrow> (\<exists>r. Call banner r \<in> set (evs out)))) \<and>
         (res out = Return () \<longrightarrow>
            (\<exists>pre s'. evs out = pre @ evs (cleanup E s') \<and> self s' = self s))"
proof -
  have a: "(\<exists>pre s'. evs out = pre @ evs (cleanup E s') \<and> self s' = self s) \<and>
           (hasattr console_view s \<longrightarrow> (\<exists>r. Call banner r \<in> set (evs out)))"
    if "res (startup E s) = Return ()" "res out \<noteq> Killed"
  proof -
    from start_runs_cleanup [OF assms that] obtain pre s'
      where e: "evs out = pre @ evs (cleanup E s')" and k: "self s' = self s" by blast
    have "\<exists>r. Call banner r \<in> set (evs out)" if "hasattr console_view s"
    proof -
      from that k have "hasattr console_view s'" by (simp add: hasattr_def)
      from cleanup_banner [OF this, of E] e show ?thesis by auto
    qed
    with e k show ?thesis by blast
  qed
  have "\<exists>pre s'. evs out = pre @ evs (cleanup E s') \<and> self s' = self s"
    if "res out = Return ()"
    using a start_returns_after_loop [OF assms that] that by simp
  with a show ?thesis by blast
qed

theorem start_cleans_up_after_loop_witness:
  "map_option res (start (scripted all_fine True 1 (Interrupted KeyboardInterrupt)) built)
     = Some (Return ())
   \<and> res (startup (scripted all_fine True 1 (Interrupted KeyboardInterrupt)) built) = Return ()
   \<and> hasattr console_view built
   \<and> map_option (\<lambda>out. \<exists>r. Call banner r \<in> set (evs out))
        (start (scripted all_fine True 1 (Interrupted KeyboardInterrupt)) built) = Some True"
proof -
  let ?E = "scripted all_fine True 1 (Interrupted KeyboardInterrupt)"
  have 1: "map_option res (start ?E built) = Some (Return ())"
    by (simp add: comb_defs prog_defs example_defs keep_alive.simps)
  then obtain out where o: "start ?E built = Some out" "res out = Return ()" by auto
  have 2: "res (startup ?E built) = Return ()"
    by (simp add: comb_defs prog_defs example_defs)
  from start_cleans_up_after_loop [OF o(1)] o(2) 2 hasattr_built(1)
  have "\<exists>r. Call banner r \<in> set (evs out)" by simp
  with o 1 2 hasattr_built(1) show ?thesis by simp
qed

text \<open>
  The claim as stated fails when a start-up call raises: with \<open>ws_controller.connect()\<close>
  raising, \<open>start\<close> ends with that exception after four calls, none of them made by
  \<open>cleanup\<close>.
\<close>

theorem start_exit_without_cleanup_counterexample:
  "map_option res
     (start (scripted (failing Ws_connect (Exception ''no network'')) True 0 Slept) built)
   = Some (Raise (Exception ''no network''))
   \<and> map_option evs
     (start (scripted (failing Ws_connect (Exception ''no network'')) True 0 Slept) built)
   = Some
       [Call (Console_print_info
                ''Starting Cryptocurrency Market Monitor with database: crypto.db'' True)
          (Return VNone),
        Call (Console_print_info ''Tracking symbols: BTCUSDT, ETHUSDT'' True) (Return VNone),
        Call Cmd_start_listener (Return VNone),
        Call Ws_connect (Raise (Exception ''no network''))]"
  by (simp add: comb_defs prog_defs example_defs)

text \<open>
  Claim C7. In \<open>start\<close>, \<open>self.visualizer.start()\<close> is called only if \<open>enable_viz\<close> is set.
  It is called when \<open>enable_viz\<close> is set, provided the calls of \<open>start\<close> that come before
  it return (the console view's, \<open>cmd_controller.start_listener()\<close> and
  \<open>ws_controller.connect()\<close>) and the attributes are there. When the call returned a
  value that is not true, \<open>console_view.print_error\<close> is called with the failure message,
  the start-up calls all return, and \<open>start\<close> goes into the keep-alive loop: any end it
  has comes after a \<open>time.sleep(1)\<close>.
\<close>

theorem startup_visualization:
  "(Call Viz_start r \<in> set (evs (startup E s)) \<longrightarrow> enable_viz (self s)) \<and>
   (startup_calls_return E \<and> hasattr console_view s \<and> hasattr cmd_controller s \<and>
    hasattr ws_controller s \<and> hasattr visualizer s \<longrightarrow>
      (enable_viz (self s) \<longrightarrow> (\<exists>r'. Call Viz_start r' \<in> set (evs (startup E s)))) \<and>
      (Call Viz_start (Return x) \<in> set (evs (startup E s)) \<and> \<not> truthy x \<longrightarrow>
         (\<exists>r'. Call viz_failed r' \<in> set (evs (startup E s))) \<and>
         res (startup E s) = Return () \<and>
         (\<forall>out. start E s = Some out \<longrightarrow> Sleep \<in> set (evs out))))"
proof -
  have 1: "enable_viz (self s)" if "Call Viz_start r \<in> set (evs (startup E s))" for r
    using that by (rule viz_start_only_if_enabled)
  have 2: "\<exists>r'. Call Viz_start r' \<in> set (evs (startup E s))"
    if "startup_calls_return E" "hasattr console_view s" "hasattr cmd_controller s"
       "hasattr ws_controller s" "hasattr visualizer s" "enable_viz (self s)"
  proof -
    from startup_shape [OF that] obtain r0
      where "filter is_viz_start (evs (startup E s)) = [Call Viz_start r0]" by blast
    then have "Call Viz_start r0 \<in> set (filter is_viz_start (evs (startup E s)))" by simp
    then show ?thesis by auto
  qed
  have 3: "(\<exists>r'. Call viz_failed r' \<in> set (evs (startup E s))) \<and>
           res (startup E s) = Return () \<and>
           (\<forall>out. start E s = Some out \<longrightarrow> Sleep \<in> set (evs out))"
    if h: "startup_calls_return E" "hasattr console_view s" "hasattr cmd_controller s"
       "hasattr ws_controller s" "hasattr visualizer s"
      and m: "Call Viz_start (Return x) \<in> set (evs (startup E s))" and x: "\<not> truthy x"
  proof -
    from startup_shape [OF h 1 [OF m]] obtain r0
      where f: "filter is_viz_start (evs (startup E s)) = [Call Viz_start r0]"
        and g: "\<forall>x. r0 = Return x \<longrightarrow> \<not> truthy x \<longrightarrow>
              (\<exists>r. Call viz_failed r \<in> set (evs (startup E s))) \<and>
              res (startup E s) = Return ()"
      by blast
    from m have "Call Viz_start (Return x) \<in> set (filter is_viz_start (evs (startup E s)))"
      by simp
    with f have "r0 = Return x" by simp
    with g x have *: "(\<exists>r. Call viz_failed r \<in> set (evs (startup E s)))"
      "res (startup E s) = Return ()" by blast+
    from start_sleeps [OF _ *(2)] * show ?thesis by blast
  qed
  from 1 2 3 show ?thesis by blast
qed

theorem startup_visualization_witness:
  "startup_calls_return (scripted viz_unavailable True 1 (Interrupted KeyboardInterrupt))
   \<and> hasattr console_view built \<and> hasattr cmd_controller built
   \<and> hasattr ws_controller built \<and> hasattr visualizer built
   \<and> enable_viz (self built)
   \<and> Call Viz_start (Return (VBool False))
       \<in> set (evs (startup (scripted viz_unavailable True 1 (Interrupted KeyboardInterrupt))
                 built))
   \<and> \<not> truthy (VBool False)
   \<and> (\<exists>r. Call viz_failed r
       \<in> set (evs (startup (scripted viz_unavailable True 1 (Interrupted KeyboardInterrupt))
                 built)))
   \<and> res (startup (scripted viz_unavailable True 1 (Interrupted KeyboardInterrupt)) built)
       = Return ()
   \<and> map_option (\<lambda>out. Sleep \<in> set (evs out))
       (start (scripted viz_unavailable True 1 (Interrupted KeyboardInterrupt)) built)
       = Some True"
proof -
  let ?E = "scripted viz_unavailable True 1 (Interrupted KeyboardInterrupt)"
  have 1: "startup_calls_return ?E"
    by (simp add: startup_calls_return_def console_returns_scripted)
       (simp add: scripted_def viz_unavailable_def)
  have 2: "enable_viz (self built)" by (simp add: built_def)
  have 3: "Call Viz_start (Return (VBool False)) \<in> set (evs (startup ?E built))"
    by (simp add: comb_defs prog_defs example_defs viz_unavailable_def)
  have 4: "map_option res (start ?E built) = Some (Return ())"
    by (simp add: comb_defs prog_defs example_defs viz_unavailable_def keep_alive.simps)
  then obtain out where o: "start ?E built = Some out" by auto
  have 5: "\<not> truthy (VBool False)" by simp
  from startup_visualization [of "Return (VBool False)" ?E built "VBool False"]
    1 3 5 hasattr_built(1-4)
  have 6: "(\<exists>r. Call viz_failed r \<in> set (evs (startup ?E built))) \<and>
           res (startup ?E built) = Return () \<and>
           (\<forall>out. start ?E built = Some out \<longrightarrow> Sleep \<in> set (evs out))"
    by blast
  with o have 7: "Sleep \<in> set (evs out)" by blast
  have 8: "map_option (\<lambda>out. Sleep \<in> set (evs out)) (start ?E built) = Some True"
    unfolding o using 7 by simp
  from 1 2 3 5 6 8 hasattr_built(1-4) show ?thesis by blast
qed

end
